theory Spec2Isabelle
  imports Main "HOL-Library.Multiset" "HOL-Library.Product_Lexorder" "HOL-Library.Option_ord"
begin

section \<open>Graphic matroids (sage/matroids/graphic\_matroid.py)\<close>

text \<open>
  Conventions of the embedding.
  \<^item> Vertices and element labels are Python integers that are never negative in the
    module (\<open>range\<close>, \<open>add_vertex\<close>): both are \<open>nat\<close>. An unlabelled edge carries
    Python's \<open>None\<close>: the label of an input graph is a \<open>label option\<close>.
  \<^item> A \<open>frozenset\<close> of labels that the code iterates over is its duplicate-free
    increasing list (\<open>py_frozenset\<close>); iteration runs in that order.
  \<^item> The leading underscore of a private Python name is written as the prefix \<open>u_\<close>.
  \<^item> Exceptions are values of \<open>error\<close>; a method that can raise returns \<open>error + 'a\<close>.
\<close>

type_synonym vertex = nat
type_synonym label = nat
type_synonym 'l edge = "vertex \<times> vertex \<times> 'l"

datatype error =
    KeyError
  | NotASubset
  | NoCircuitInIndependentSet
  | NoCocircuitInCoindependentSet
  | DuplicateElement
  | ExpectedTwoSeparation
  | Expected1Separation
  | TooManySharedVertices
  | VerticesMustExist
  | FirstVertexNotSpanned
  | SecondVertexNotSpanned

definition py_frozenset :: "'a::linorder list \<Rightarrow> 'a list" where
  "py_frozenset xs = sort (remdups xs)"

subsection \<open>The graph engine\<close>

text \<open>
  Modelled from the spec: the graph engine (\<open>sage.graphs.graph.Graph\<close>) is an external
  collaborator of the module (spec section 6): a multigraph with loops and labelled
  edges, with the vertex list, the edge list, edges incident to a vertex, add/delete
  edge, add vertex, the connected components and their number, and the forest test.
  A graph value is its increasing vertex list and its sorted list of edges
  \<open>(u, v, l)\<close> with \<open>u \<le> v\<close>, which is what \<open>vertices()\<close> and \<open>edges()\<close> return.
\<close>

record 'l graph =
  vertices :: "vertex list"
  edges :: "'l edge list"

definition norm_edge :: "'l edge \<Rightarrow> 'l edge" where
  "norm_edge e = (case e of (u, v, l) \<Rightarrow> (min u v, max u v, l))"

definition endpoints :: "'l edge list \<Rightarrow> vertex list" where
  "endpoints es = concat (map (\<lambda>(u, v, l). [u, v]) es)"

text \<open>\<open>Graph(edge_list, loops=True, multiedges=True)\<close>: the vertices are the endpoints.\<close>

definition Graph :: "'l::linorder edge list \<Rightarrow> 'l graph" where
  "Graph es = \<lparr> vertices = sort (remdups (endpoints es)), edges = sort (map norm_edge es) \<rparr>"

definition num_verts :: "'l graph \<Rightarrow> nat" where
  "num_verts g = length (vertices g)"

definition num_edges :: "'l graph \<Rightarrow> nat" where
  "num_edges g = length (edges g)"

definition edge_labels :: "'l graph \<Rightarrow> 'l list" where
  "edge_labels g = map (\<lambda>(u, v, l). l) (edges g)"

definition loops :: "'l graph \<Rightarrow> 'l edge list" where
  "loops g = filter (\<lambda>(u, v, l). u = v) (edges g)"

definition edges_incident :: "'l graph \<Rightarrow> vertex \<Rightarrow> 'l edge list" where
  "edges_incident g x = filter (\<lambda>(u, v, l). u = x \<or> v = x) (edges g)"

definition add_edge :: "'l::linorder graph \<Rightarrow> 'l edge \<Rightarrow> 'l graph" where
  "add_edge g e = (case e of (u, v, l) \<Rightarrow>
     \<lparr> vertices = sort (remdups (u # v # vertices g)),
       edges = insort (norm_edge e) (edges g) \<rparr>)"

text \<open>Deleting an edge removes one copy of it and keeps its endpoints as vertices.\<close>

definition delete_edge :: "'l graph \<Rightarrow> 'l edge \<Rightarrow> 'l graph" where
  "delete_edge g e = g\<lparr> edges := remove1 (norm_edge e) (edges g) \<rparr>"

definition delete_edges :: "'l graph \<Rightarrow> 'l edge list \<Rightarrow> 'l graph" where
  "delete_edges g es = fold (\<lambda>e h. delete_edge h e) es g"

subsection \<open>Disjoint sets (\<open>sage.sets.disjoint_set.DisjointSet\<close>)\<close>

text \<open>
  Modelled from the spec: the union-find of the graph engine (spec sections 4.2 and 6).
  A partition of \<open>elems\<close> is kept as the map \<open>root\<close> from an element to the
  representative of its block; \<open>union\<close> redirects the block of \<open>u\<close> to the
  representative of \<open>v\<close>; \<open>number_of_subsets\<close> counts the representatives.
\<close>

record disjoint_set =
  elems :: "vertex list"
  root :: "vertex \<Rightarrow> vertex"

definition DisjointSet :: "vertex list \<Rightarrow> disjoint_set" where
  "DisjointSet vs = \<lparr> elems = vs, root = (\<lambda>x. x) \<rparr>"

definition union :: "disjoint_set \<Rightarrow> vertex \<Rightarrow> vertex \<Rightarrow> disjoint_set" where
  "union D u v = D\<lparr> root := (\<lambda>x. if root D x = root D u then root D v else root D x) \<rparr>"

definition number_of_subsets :: "disjoint_set \<Rightarrow> nat" where
  "number_of_subsets D = length (remdups (map (root D) (elems D)))"

definition union_edges :: "'l edge list \<Rightarrow> disjoint_set \<Rightarrow> disjoint_set" where
  "union_edges es D = fold (\<lambda>(u, v, l) D'. union D' u v) es D"

subsection \<open>Connected components of the graph engine\<close>

definition components_of :: "'l graph \<Rightarrow> disjoint_set" where
  "components_of g = union_edges (edges g) (DisjointSet (vertices g))"

definition connected_components_number :: "'l graph \<Rightarrow> nat" where
  "connected_components_number g = number_of_subsets (components_of g)"

definition is_connected :: "'l graph \<Rightarrow> bool" where
  "is_connected g = (connected_components_number g \<le> 1)"

text \<open>
  \<open>connected_components()\<close>: one increasing vertex list per component, in the order in
  which the components are met along the vertex list, then sorted from the largest to
  the smallest component (a stable sort).
\<close>

definition connected_components :: "'l graph \<Rightarrow> vertex list list" where
  "connected_components g =
     (let r = root (components_of g);
          seeds = filter (\<lambda>v. \<forall>w \<in> set (vertices g). r w = r v \<longrightarrow> v \<le> w) (vertices g)
      in sort_key (\<lambda>c. - int (length c))
           (map (\<lambda>v. filter (\<lambda>w. r w = r v) (vertices g)) seeds))"

text \<open>\<open>is_forest()\<close> of the engine compares the three counts.\<close>

definition is_forest :: "'l graph \<Rightarrow> bool" where
  "is_forest g = (num_verts g = num_edges g + connected_components_number g)"

subsection \<open>The class \<open>GraphicMatroid\<close>\<close>

record GraphicMatroid =
  groundset :: "label list"
  vertex_map :: "vertex \<Rightarrow> vertex"
  G :: "label graph"
  groundset_edge_map :: "label \<rightharpoonup> vertex \<times> vertex"

text \<open>
  The loop of \<open>__init__\<close> that joins the components. \<open>comps.pop()\<close> takes the last list,
  so the function works on the reversed list of components: its head is \<open>comp\<close> (here \<open>cmp\<close>), the
  next list is \<open>comps[-1]\<close>. Components are never empty (each holds its seed vertex).
\<close>

fun join_components :: "vertex list list \<Rightarrow> (vertex \<Rightarrow> vertex) \<Rightarrow> (vertex \<Rightarrow> vertex)" where
  "join_components (cmp # prev # rest) vm =
     join_components ((prev @ cmp) # rest) (vm(hd cmp := last prev))"
| "join_components _ vm = vm"

text \<open>
  \<open>__init__(G, groundset)\<close>. The ground set is taken from the edge labels when it is
  not given; it is replaced by \<open>range(G.num_edges())\<close> when it holds \<open>None\<close> or when the
  number of its distinct members is not the number of edges.
\<close>

definition init_groundset :: "label option graph \<Rightarrow> label option list option \<Rightarrow> label list" where
  "init_groundset g gs =
     (let given = (case gs of None \<Rightarrow> edge_labels g | Some xs \<Rightarrow> xs)
      in case those given of
           None \<Rightarrow> [0..<num_edges g]
         | Some ls \<Rightarrow> if length (remdups ls) \<noteq> num_edges g then [0..<num_edges g] else ls)"

definition edge_map_of :: "label edge list \<Rightarrow> (label \<rightharpoonup> vertex \<times> vertex)" where
  "edge_map_of es = fold (\<lambda>(u, v, l) m. m(l \<mapsto> (u, v))) es Map.empty"

definition GraphicMatroid_init ::
  "label option graph \<Rightarrow> label option list option \<Rightarrow> GraphicMatroid" where
  "GraphicMatroid_init g gs =
     (let ground = init_groundset g gs;
          vm = join_components (rev (connected_components g)) (\<lambda>v. v);
          edge_list = map (\<lambda>((u, v, l0), l). (vm u, vm v, l)) (zip (edges g) ground);
          g' = Graph edge_list
      in \<lparr> groundset = py_frozenset ground, vertex_map = vm, G = g',
           groundset_edge_map = edge_map_of (edges g') \<rparr>)"

text \<open>\<open>graph()\<close> returns a copy; a structural edit hands a graph with labels to the constructor.\<close>

definition graph :: "GraphicMatroid \<Rightarrow> label graph" where
  "graph M = G M"

definition as_input :: "label graph \<Rightarrow> label option graph" where
  "as_input g = \<lparr> vertices = vertices g, edges = map (\<lambda>(u, v, l). (u, v, Some l)) (edges g) \<rparr>"

definition GraphicMatroid_of :: "label graph \<Rightarrow> GraphicMatroid" where
  "GraphicMatroid_of g = GraphicMatroid_init (as_input g) None"

subsection \<open>Ground set elements and edges\<close>

fun u_groundset_to_edges :: "GraphicMatroid \<Rightarrow> label list \<Rightarrow> error + label edge list" where
  "u_groundset_to_edges M [] = Inr []"
| "u_groundset_to_edges M (x # xs) =
     (case groundset_edge_map M x of
        None \<Rightarrow> Inl KeyError
      | Some (v0, v1) \<Rightarrow>
          (case u_groundset_to_edges M xs of
             Inl e \<Rightarrow> Inl e
           | Inr es \<Rightarrow> Inr ((v0, v1, x) # es)))"

definition groundset_to_edges :: "GraphicMatroid \<Rightarrow> label list \<Rightarrow> error + label edge list" where
  "groundset_to_edges M X =
     (if \<exists>x \<in> set X. x \<notin> set (groundset M) then Inl NotASubset else u_groundset_to_edges M X)"

definition u_subgraph_from_set :: "GraphicMatroid \<Rightarrow> label list \<Rightarrow> error + label graph" where
  "u_subgraph_from_set M X =
     (case u_groundset_to_edges M X of Inl e \<Rightarrow> Inl e | Inr es \<Rightarrow> Inr (Graph es))"

subsection \<open>Rank\<close>

text \<open>
  \<open>_rank(X)\<close>: the vertex set spanned by the edges of \<open>X\<close>, a union-find over it with one
  union per edge, and the difference of the two counts.
\<close>

definition rank_of_edges :: "label edge list \<Rightarrow> int" where
  "rank_of_edges es =
     (let vs = remdups (map (\<lambda>(u, v, l). u) es @ map (\<lambda>(u, v, l). v) es);
          DS_vertices = union_edges es (DisjointSet vs)
      in int (length vs) - int (number_of_subsets DS_vertices))"

definition u_rank :: "GraphicMatroid \<Rightarrow> label list \<Rightarrow> error + int" where
  "u_rank M X =
     (case groundset_to_edges M X of Inl e \<Rightarrow> Inl e | Inr es \<Rightarrow> Inr (rank_of_edges es))"

subsection \<open>Comparison\<close>

text \<open>
  \<open>_vertex_stars()\<close>: the set of the label sets around the vertices. The builtin
  \<open>hash\<close> of a frozenset is a parameter \<open>h\<close> of the model.
\<close>

definition u_vertex_stars :: "GraphicMatroid \<Rightarrow> label set set" where
  "u_vertex_stars M =
     set (map (\<lambda>x. set (map (\<lambda>(u, v, l). l) (edges_incident (G M) x))) (vertices (G M)))"

definition matroid_hash :: "(label set set \<Rightarrow> int) \<Rightarrow> GraphicMatroid \<Rightarrow> int" where
  "matroid_hash h M = h (u_vertex_stars M)"

text \<open>
  The right operand of \<open>==\<close> is any Python object: a \<open>GraphicMatroid\<close>, or a value of
  another class, of which only a graph it may have been built from is kept.
\<close>

datatype pyobj = A_GraphicMatroid GraphicMatroid | Other_Object "label graph"

definition matroid_eq :: "GraphicMatroid \<Rightarrow> pyobj \<Rightarrow> bool" where
  "matroid_eq M other = (case other of
      Other_Object g \<Rightarrow> False
    | A_GraphicMatroid N \<Rightarrow> G M = G N)"

definition matroid_ne :: "GraphicMatroid \<Rightarrow> pyobj \<Rightarrow> bool" where
  "matroid_ne M other = (\<not> matroid_eq M other)"

subsection \<open>Independence, circuits, closure\<close>

definition u_is_independent :: "GraphicMatroid \<Rightarrow> label list \<Rightarrow> error + bool" where
  "u_is_independent M X =
     (case u_subgraph_from_set M X of Inl e \<Rightarrow> Inl e | Inr g \<Rightarrow> Inr (is_forest g))"

text \<open>
  The loop of \<open>_circuit\<close> over \<open>g.edges()\<close>: an edge is deleted; when what is left is a
  forest the edge is put back and its label recorded.
\<close>

fun circuit_loop :: "label edge list \<Rightarrow> label graph \<Rightarrow> label list \<Rightarrow> label list" where
  "circuit_loop [] g circuit = circuit"
| "circuit_loop (e # es) g circuit =
     (let g' = delete_edge g e
      in if is_forest g'
         then circuit_loop es (add_edge g' e) (circuit @ [snd (snd e)])
         else circuit_loop es g' circuit)"

definition u_circuit :: "GraphicMatroid \<Rightarrow> label list \<Rightarrow> error + label list" where
  "u_circuit M X =
     (case u_subgraph_from_set M X of
        Inl e \<Rightarrow> Inl e
      | Inr g \<Rightarrow>
          if is_forest g then Inl NoCircuitInIndependentSet
          else Inr (py_frozenset (circuit_loop (edges g) g [])))"

text \<open>
  The loop of \<open>_closure\<close> over the edges outside \<open>X\<close>: \<open>V\<close> and \<open>components\<close> are read
  once before the loop; an edge with both ends in \<open>V\<close> is added, and kept with its
  label recorded when the number of components has not dropped.
\<close>

fun closure_loop ::
  "label edge list \<Rightarrow> vertex list \<Rightarrow> nat \<Rightarrow> label graph \<Rightarrow> label list \<Rightarrow> label list" where
  "closure_loop [] V components g X = X"
| "closure_loop (e # es) V components g X =
     (if fst e \<in> set V \<and> fst (snd e) \<in> set V
      then (let g' = add_edge g e
            in if connected_components_number g' \<ge> components
               then closure_loop es V components g' (X @ [snd (snd e)])
               else closure_loop es V components (delete_edge g' e) X)
      else closure_loop es V components g X)"

definition u_closure :: "GraphicMatroid \<Rightarrow> label list \<Rightarrow> error + label list" where
  "u_closure M X =
     (let X' = remdups X;
          Y = filter (\<lambda>x. x \<notin> set X') (groundset M)
      in case u_groundset_to_edges M Y of
           Inl e \<Rightarrow> Inl e
         | Inr edgelist \<Rightarrow>
             (case u_subgraph_from_set M X' of
                Inl e \<Rightarrow> Inl e
              | Inr g \<Rightarrow>
                  Inr (py_frozenset
                         (closure_loop edgelist (vertices g) (connected_components_number g) g X'
                            @ map (\<lambda>(u, v, l). l) (loops (G M))))))"

text \<open>
  \<open>_is_closed\<close>: the loop labels are taken out of \<open>X\<close> before both edge lists are
  computed, the complement \<open>Y\<close> included.
\<close>

definition u_is_closed :: "GraphicMatroid \<Rightarrow> label list \<Rightarrow> error + bool" where
  "u_is_closed M X =
     (let loop_labels = map (\<lambda>(u, v, l). l) (loops (G M))
      in if \<not> set loop_labels \<subseteq> set X then Inr False
         else
           (let X' = filter (\<lambda>x. x \<notin> set loop_labels) (remdups X)
            in case u_groundset_to_edges M X' of
                 Inl e \<Rightarrow> Inl e
               | Inr edge_list \<Rightarrow>
                   (let Y = filter (\<lambda>x. x \<notin> set X') (groundset M)
                    in case u_groundset_to_edges M Y of
                         Inl e \<Rightarrow> Inl e
                       | Inr edge_list2 \<Rightarrow>
                           (let vertex_set = set (endpoints edge_list)
                            in Inr (\<not> (\<exists>e \<in> set edge_list2.
                                           fst e \<in> vertex_set \<and> fst (snd e) \<in> vertex_set))))))"

subsection \<open>Coclosure and coloops\<close>

fun coclosure_loop :: "label edge list \<Rightarrow> nat \<Rightarrow> label graph \<Rightarrow> label list \<Rightarrow> label list" where
  "coclosure_loop [] components g X = X"
| "coclosure_loop (e # es) components g X =
     (let g' = delete_edge g e;
          X' = (if connected_components_number g' > components then X @ [snd (snd e)] else X)
      in coclosure_loop es components (add_edge g' e) X')"

definition u_coclosure :: "GraphicMatroid \<Rightarrow> label list \<Rightarrow> error + label list" where
  "u_coclosure M X =
     (case u_groundset_to_edges M X of
        Inl e \<Rightarrow> Inl e
      | Inr X_edges \<Rightarrow>
          (let g = delete_edges (graph M) X_edges;
               components = connected_components_number g;
               X' = remdups X;
               Y = filter (\<lambda>x. x \<notin> set X') (groundset M)
           in case u_groundset_to_edges M Y of
                Inl e \<Rightarrow> Inl e
              | Inr Y_edges \<Rightarrow> Inr (py_frozenset (coclosure_loop Y_edges components g X'))))"

text \<open>
  Modelled from the spec: \<open>coloops()\<close> belongs to the base class \<open>Matroid\<close>, which is not
  part of this module. A coloop is an element in every maximal independent set, in the
  graph a bridge (glossary): the coloops are the coclosure of the empty set.
\<close>

definition coloops :: "GraphicMatroid \<Rightarrow> error + label list" where
  "coloops M = u_coclosure M []"

subsection \<open>Extension\<close>

text \<open>
  Modelled from the spec: \<open>newlabel\<close> of \<open>utilities\<close> is a pure function that returns a
  label outside the labels in use (section 9); here the successor of the largest one.
\<close>

definition newlabel :: "label list \<Rightarrow> label" where
  "newlabel used = (if used = [] then 0 else Suc (Max (set used)))"

definition graphic_extension ::
  "GraphicMatroid \<Rightarrow> vertex \<Rightarrow> vertex option \<Rightarrow> label option \<Rightarrow> error + GraphicMatroid" where
  "graphic_extension M u v element =
     (if element \<noteq> None \<and> the element \<in> set (groundset M) then Inl DuplicateElement
      else
        (let element' = (case element of None \<Rightarrow> newlabel (groundset M) | Some x \<Rightarrow> x);
             v' = (case v of None \<Rightarrow> u | Some w \<Rightarrow> w);
             g = add_edge (graph M) (u, v', element')
         in Inr (GraphicMatroid_of g)))"

subsection \<open>Well-formed constructor input and example graphs\<close>

text \<open>
  The documentation of the class asks for a ground set that is a list in one-to-one
  correspondence with the edges: a list given to the constructor has no duplicates.
\<close>

definition valid_input :: "label option graph \<Rightarrow> label option list option \<Rightarrow> bool" where
  "valid_input g gs = (case gs of None \<Rightarrow> True | Some xs \<Rightarrow> distinct xs)"

text \<open>Graphs of the doctests of the module.\<close>

definition DiamondGraph :: "label option graph" where
  "DiamondGraph = Graph [(0, 1, None), (0, 2, None), (1, 2, None), (1, 3, None), (2, 3, None)]"

definition looped_example :: "label option graph" where
  "looped_example =
     Graph [(0, 0, None), (0, 1, None), (0, 2, None), (0, 3, None), (1, 2, None), (1, 2, None)]"

definition CycleGraph4 :: "label option graph" where
  "CycleGraph4 = Graph [(0, 1, None), (0, 3, None), (1, 2, None), (2, 3, None)]"

definition CompleteBipartiteGraph22 :: "label option graph" where
  "CompleteBipartiteGraph22 = Graph [(0, 2, None), (0, 3, None), (1, 2, None), (1, 3, None)]"

subsection \<open>Whitney twist\<close>

text \<open>
  Modelled from the spec: \<open>connectivity\<close> belongs to the base class \<open>Matroid\<close>; the
  connectivity value of a set is \<open>r(X) + r(E - X) - r(E)\<close> (glossary, k-separation).
\<close>

definition connectivity :: "GraphicMatroid \<Rightarrow> label list \<Rightarrow> error + int" where
  "connectivity M X =
     (case u_rank M X of
        Inl e \<Rightarrow> Inl e
      | Inr rX \<Rightarrow>
          (case u_rank M (filter (\<lambda>x. x \<notin> set X) (groundset M)) of
             Inl e \<Rightarrow> Inl e
           | Inr rY \<Rightarrow>
               (case u_rank M (groundset M) of
                  Inl e \<Rightarrow> Inl e
                | Inr rE \<Rightarrow> Inr (rX + rY - rE))))"

text \<open>The exchange of the two shared vertices: \<open>if u == a: u = b elif u == b: u = a\<close>.\<close>

definition exchange :: "vertex \<Rightarrow> vertex \<Rightarrow> vertex \<Rightarrow> vertex" where
  "exchange a b u = (if u = a then b else if u = b then a else u)"

fun twist_loop :: "label edge list \<Rightarrow> vertex \<Rightarrow> vertex \<Rightarrow> label graph \<Rightarrow> label graph" where
  "twist_loop [] a b g = g"
| "twist_loop (e # es) a b g =
     twist_loop es a b
       (add_edge (delete_edge g e) (exchange a b (fst e), exchange a b (fst (snd e)), snd (snd e)))"

definition twist :: "GraphicMatroid \<Rightarrow> label list \<Rightarrow> error + GraphicMatroid" where
  "twist M X =
     (if \<not> set X \<subseteq> set (groundset M) then Inl NotASubset
      else case connectivity M X of
        Inl e \<Rightarrow> Inl e
      | Inr c \<Rightarrow>
          if c \<noteq> 1 then Inl ExpectedTwoSeparation
          else case groundset_to_edges M X of
            Inl e \<Rightarrow> Inl e
          | Inr X_edges \<Rightarrow>
              (case groundset_to_edges M (filter (\<lambda>x. x \<notin> set X) (groundset M)) of
                 Inl e \<Rightarrow> Inl e
               | Inr Y_edges \<Rightarrow>
                   (let X_vertices = py_frozenset (endpoints X_edges);
                        Y_vertices = py_frozenset (endpoints Y_edges);
                        shared = filter (\<lambda>x. x \<in> set Y_vertices) X_vertices
                    in if length shared \<noteq> 2 then Inl TooManySharedVertices
                       else
                         (let a = shared ! 0;
                              b = shared ! 1;
                              es = filter (\<lambda>(u, v, l). u \<in> set shared \<or> v \<in> set shared) X_edges
                          in Inr (GraphicMatroid_of (twist_loop es a b (graph M)))))))"

subsection \<open>Objects and the store\<close>

text \<open>
  Modelled from the spec: the graph engine is external; its methods \<open>add_edge\<close>,
  \<open>delete_edge\<close>, \<open>delete_edges\<close>, \<open>contract_edges\<close>, \<open>add_vertex\<close> and
  \<open>merge_vertices\<close> (and \<open>split_vertex\<close> of \<open>utilities\<close>) change the graph object they are
  called on and no other object, and \<open>copy()\<close> and \<open>Graph(...)\<close> make a new graph object.

  For the claims about mutation the Python objects are kept in a store. A graph object is
  mutable and lives at a reference; a matroid object holds its frozen ground set, its two
  dictionaries and the reference of its graph \<open>_G\<close>. References are handed out in
  increasing order by \<open>next_ref\<close>. An in-place method called on the graph object at
  \<open>r\<close> is \<open>st_update r f\<close>, with \<open>f\<close> what the method does to the graph value.
\<close>

record matroid_object =
  o_groundset :: "label list"
  o_vertex_map :: "vertex \<Rightarrow> vertex"
  o_G :: nat
  o_groundset_edge_map :: "label \<rightharpoonup> vertex \<times> vertex"

record store =
  graph_objects :: "nat \<rightharpoonup> label graph"
  matroid_objects :: "nat \<rightharpoonup> matroid_object"
  next_ref :: nat

definition graph_at :: "store \<Rightarrow> nat \<Rightarrow> label graph" where
  "graph_at s r = (case graph_objects s r of Some g \<Rightarrow> g | None \<Rightarrow> \<lparr> vertices = [], edges = [] \<rparr>)"

definition matroid_value :: "store \<Rightarrow> matroid_object \<Rightarrow> GraphicMatroid" where
  "matroid_value s obj =
     \<lparr> groundset = o_groundset obj, vertex_map = o_vertex_map obj,
       G = graph_at s (o_G obj), groundset_edge_map = o_groundset_edge_map obj \<rparr>"

definition alloc_graph :: "label graph \<Rightarrow> store \<Rightarrow> nat \<times> store" where
  "alloc_graph g s =
     (next_ref s, s\<lparr> graph_objects := (graph_objects s)(next_ref s \<mapsto> g),
                     next_ref := Suc (next_ref s) \<rparr>)"

definition alloc_matroid :: "matroid_object \<Rightarrow> store \<Rightarrow> nat \<times> store" where
  "alloc_matroid obj s =
     (next_ref s, s\<lparr> matroid_objects := (matroid_objects s)(next_ref s \<mapsto> obj),
                     next_ref := Suc (next_ref s) \<rparr>)"

definition st_update :: "nat \<Rightarrow> (label graph \<Rightarrow> label graph) \<Rightarrow> store \<Rightarrow> store" where
  "st_update r f s = s\<lparr> graph_objects := (graph_objects s)(r \<mapsto> f (graph_at s r)) \<rparr>"

text \<open>\<open>graph()\<close>: \<open>self._G.copy(data_structure='sparse')\<close>, a new graph object.\<close>

definition st_graph :: "matroid_object \<Rightarrow> store \<Rightarrow> nat \<times> store" where
  "st_graph self s = alloc_graph (graph_at s (o_G self)) s"

text \<open>
  \<open>GraphicMatroid(G)\<close> for the graph object at \<open>r\<close>: the constructor reads \<open>G\<close>, builds a
  new graph object for \<open>self._G\<close> and a new matroid object.
\<close>

definition st_init :: "nat \<Rightarrow> store \<Rightarrow> nat \<times> store" where
  "st_init r s =
     (let M = GraphicMatroid_of (graph_at s r);
          (rg, s1) = alloc_graph (G M) s
      in alloc_matroid
           \<lparr> o_groundset = groundset M, o_vertex_map = vertex_map M, o_G = rg,
             o_groundset_edge_map = groundset_edge_map M \<rparr> s1)"

subsection \<open>The operations on the store\<close>

definition st_rank :: "nat \<Rightarrow> label list \<Rightarrow> store \<Rightarrow> (error + int) \<times> store" where
  "st_rank self X s =
     (case matroid_objects s self of
        None \<Rightarrow> (Inl KeyError, s)
      | Some obj \<Rightarrow> (u_rank (matroid_value s obj) X, s))"

fun st_closure_loop ::
  "nat \<Rightarrow> label edge list \<Rightarrow> vertex list \<Rightarrow> nat \<Rightarrow> label list \<Rightarrow> store \<Rightarrow> label list \<times> store" where
  "st_closure_loop g [] V components X s = (X, s)"
| "st_closure_loop g (e # es) V components X s =
     (if fst e \<in> set V \<and> fst (snd e) \<in> set V
      then (let s1 = st_update g (\<lambda>h. add_edge h e) s
            in if connected_components_number (graph_at s1 g) \<ge> components
               then st_closure_loop g es V components (X @ [snd (snd e)]) s1
               else st_closure_loop g es V components X (st_update g (\<lambda>h. delete_edge h e) s1))
      else st_closure_loop g es V components X s)"

definition st_closure :: "nat \<Rightarrow> label list \<Rightarrow> store \<Rightarrow> (error + label list) \<times> store" where
  "st_closure self X s =
     (case matroid_objects s self of
        None \<Rightarrow> (Inl KeyError, s)
      | Some obj \<Rightarrow>
          (let M = matroid_value s obj;
               X' = remdups X;
               Y = filter (\<lambda>x. x \<notin> set X') (groundset M)
           in case u_groundset_to_edges M Y of
                Inl e \<Rightarrow> (Inl e, s)
              | Inr edgelist \<Rightarrow>
                  (case u_groundset_to_edges M X' of
                     Inl e \<Rightarrow> (Inl e, s)
                   | Inr es \<Rightarrow>
                       (let (g, s1) = alloc_graph (Graph es) s;
                            V = vertices (graph_at s1 g);
                            components = connected_components_number (graph_at s1 g);
                            (X'', s2) = st_closure_loop g edgelist V components X' s1
                        in (Inr (py_frozenset
                                   (X'' @ map (\<lambda>(u, v, l). l) (loops (graph_at s2 (o_G obj))))),
                            s2)))))"

text \<open>
  \<open>_minor\<close>: the engine's \<open>contract_edges\<close> is a parameter (what it does to a graph value).
\<close>

definition st_minor ::
  "(label graph \<Rightarrow> label edge list \<Rightarrow> label graph) \<Rightarrow>
   nat \<Rightarrow> label list \<Rightarrow> label list \<Rightarrow> store \<Rightarrow> (error + nat) \<times> store" where
  "st_minor contract_edges self contractions deletions s =
     (case matroid_objects s self of
        None \<Rightarrow> (Inl KeyError, s)
      | Some obj \<Rightarrow>
          (let (g, s1) = st_graph obj s;
               M = matroid_value s1 obj
           in case u_groundset_to_edges M contractions of
                Inl e \<Rightarrow> (Inl e, s1)
              | Inr cont_edges \<Rightarrow>
                  (case u_groundset_to_edges M deletions of
                     Inl e \<Rightarrow> (Inl e, s1)
                   | Inr del_edges \<Rightarrow>
                       (let s2 = st_update g (\<lambda>h. delete_edges h del_edges) s1;
                            s3 = st_update g (\<lambda>h. contract_edges h cont_edges) s2;
                            (m, s4) = st_init g s3
                        in (Inr m, s4)))))"

definition st_graphic_extension ::
  "nat \<Rightarrow> vertex \<Rightarrow> vertex option \<Rightarrow> label option \<Rightarrow> store \<Rightarrow> (error + nat) \<times> store" where
  "st_graphic_extension self u v element s =
     (case matroid_objects s self of
        None \<Rightarrow> (Inl KeyError, s)
      | Some obj \<Rightarrow>
          (let M = matroid_value s obj
           in if element \<noteq> None \<and> the element \<in> set (groundset M) then (Inl DuplicateElement, s)
              else
                (let element' = (case element of None \<Rightarrow> newlabel (groundset M) | Some x \<Rightarrow> x);
                     v' = (case v of None \<Rightarrow> u | Some w \<Rightarrow> w);
                     (g, s1) = st_graph obj s;
                     s2 = st_update g (\<lambda>h. add_edge h (u, v', element')) s1;
                     (m, s3) = st_init g s2
                 in (Inr m, s3))))"

fun st_twist_loop :: "nat \<Rightarrow> label edge list \<Rightarrow> vertex \<Rightarrow> vertex \<Rightarrow> store \<Rightarrow> store" where
  "st_twist_loop g [] a b s = s"
| "st_twist_loop g (e # es) a b s =
     st_twist_loop g es a b
       (st_update g
          (\<lambda>h. add_edge h (exchange a b (fst e), exchange a b (fst (snd e)), snd (snd e)))
          (st_update g (\<lambda>h. delete_edge h e) s))"

text \<open>\<open>twist\<close> takes a copy of the graph twice; the loop works on the second copy.\<close>

definition st_twist :: "nat \<Rightarrow> label list \<Rightarrow> store \<Rightarrow> (error + nat) \<times> store" where
  "st_twist self X s =
     (case matroid_objects s self of
        None \<Rightarrow> (Inl KeyError, s)
      | Some obj \<Rightarrow>
          (let M = matroid_value s obj
           in if \<not> set X \<subseteq> set (groundset M) then (Inl NotASubset, s)
              else case connectivity M X of
                Inl e \<Rightarrow> (Inl e, s)
              | Inr c \<Rightarrow>
                  if c \<noteq> 1 then (Inl ExpectedTwoSeparation, s)
                  else
                    (let (g0, s1) = st_graph obj s
                     in case groundset_to_edges M X of
                          Inl e \<Rightarrow> (Inl e, s1)
                        | Inr X_edges \<Rightarrow>
                            (case groundset_to_edges M (filter (\<lambda>x. x \<notin> set X) (groundset M)) of
                               Inl e \<Rightarrow> (Inl e, s1)
                             | Inr Y_edges \<Rightarrow>
                                 (let X_vertices = py_frozenset (endpoints X_edges);
                                      Y_vertices = py_frozenset (endpoints Y_edges);
                                      shared = filter (\<lambda>x. x \<in> set Y_vertices) X_vertices
                                  in if length shared \<noteq> 2 then (Inl TooManySharedVertices, s1)
                                     else
                                       (let a = shared ! 0;
                                            b = shared ! 1;
                                            es = filter (\<lambda>(u, v, l). u \<in> set shared \<or> v \<in> set shared)
                                                   X_edges;
                                            (g, s2) = st_graph obj s1;
                                            s3 = st_twist_loop g es a b s2;
                                            (m, s4) = st_init g s3
                                        in (Inr m, s4)))))))"

text \<open>
  Modelled from the spec: \<open>add_vertex()\<close> of the engine adds the smallest non-negative
  integer that is not a vertex and returns it.
\<close>

definition new_vertex :: "label graph \<Rightarrow> vertex" where
  "new_vertex g = hd (filter (\<lambda>i. i \<notin> set (vertices g)) [0..<Suc (length (vertices g))])"

definition add_vertex :: "label graph \<Rightarrow> label graph" where
  "add_vertex g = g\<lparr> vertices := sort (remdups (new_vertex g # vertices g)) \<rparr>"

text \<open>
  \<open>one_sum\<close>: \<open>split_vertex\<close> of \<open>utilities\<close> and the engine's \<open>merge_vertices\<close> are
  parameters (what they do to a graph value); both work in place on the copy \<open>G\<close>.
\<close>

definition st_one_sum ::
  "(label graph \<Rightarrow> vertex \<Rightarrow> vertex \<Rightarrow> label edge list \<Rightarrow> label graph) \<Rightarrow>
   (label graph \<Rightarrow> vertex list \<Rightarrow> label graph) \<Rightarrow>
   nat \<Rightarrow> label list \<Rightarrow> vertex \<Rightarrow> vertex \<Rightarrow> store \<Rightarrow> (error + nat) \<times> store" where
  "st_one_sum split_vertex merge_vertices self X u v s =
     (case matroid_objects s self of
        None \<Rightarrow> (Inl KeyError, s)
      | Some obj \<Rightarrow>
          (let M = matroid_value s obj
           in if \<not> set X \<subseteq> set (groundset M) then (Inl NotASubset, s)
              else case connectivity M X of
                Inl e \<Rightarrow> (Inl e, s)
              | Inr c \<Rightarrow>
                  if c \<noteq> 0 then (Inl Expected1Separation, s)
                  else
                    (let (g, s1) = st_graph obj s
                     in if u \<notin> set (vertices (graph_at s1 g)) \<or> v \<notin> set (vertices (graph_at s1 g))
                        then (Inl VerticesMustExist, s1)
                        else case groundset_to_edges M X of
                          Inl e \<Rightarrow> (Inl e, s1)
                        | Inr X_edges \<Rightarrow>
                            (let X_vertices = py_frozenset (endpoints X_edges)
                             in if u \<notin> set X_vertices then (Inl FirstVertexNotSpanned, s1)
                                else case groundset_to_edges M
                                            (filter (\<lambda>x. x \<notin> set X) (groundset M)) of
                                  Inl e \<Rightarrow> (Inl e, s1)
                                | Inr Y_edges \<Rightarrow>
                                    (let Y_vertices = py_frozenset (endpoints Y_edges)
                                     in if v \<notin> set Y_vertices then (Inl SecondVertexNotSpanned, s1)
                                        else
                                          (let shared = filter (\<lambda>x. x \<in> set Y_vertices) X_vertices
                                           in if length shared \<noteq> 1
                                              then (Inl TooManySharedVertices, s1)
                                              else
                                                (let a = shared ! 0;
                                                     b = new_vertex (graph_at s1 g);
                                                     s2 = st_update g add_vertex s1;
                                                     edgeset = filter (\<lambda>e. e \<in> set (edges_incident (graph_at s2 g) a))
                                                                 (remdups X_edges);
                                                     s3 = st_update g (\<lambda>h. split_vertex h a b edgeset) s2;
                                                     s4 = (if u = a
                                                           then st_update g (\<lambda>h. merge_vertices h [v, b]) s3
                                                           else st_update g (\<lambda>h. merge_vertices h [v, u]) s3);
                                                     (m, s5) = st_init g s4
                                                 in (Inr m, s5))))))))"

text \<open>
  What the claims about mutation speak of: every object that existed in the store before
  an operation is the same afterwards, and a returned matroid is a new object with a new
  graph object.
\<close>

definition unchanged :: "store \<Rightarrow> store \<Rightarrow> bool" where
  "unchanged s s' \<longleftrightarrow>
     next_ref s \<le> next_ref s' \<and>
     (\<forall>r < next_ref s. graph_objects s' r = graph_objects s r \<and>
                       matroid_objects s' r = matroid_objects s r)"

definition fresh_instance :: "store \<Rightarrow> store \<Rightarrow> nat \<Rightarrow> bool" where
  "fresh_instance s s' m \<longleftrightarrow>
     next_ref s \<le> m \<and> (\<exists>obj. matroid_objects s' m = Some obj \<and> next_ref s \<le> o_G obj)"

definition empty_store :: store where
  "empty_store = \<lparr> graph_objects = Map.empty, matroid_objects = Map.empty, next_ref = 0 \<rparr>"

definition receiver_unchanged :: "store \<Rightarrow> nat \<Rightarrow> store \<Rightarrow> bool" where
  "receiver_unchanged s self s' \<longleftrightarrow>
     unchanged s s' \<and> matroid_objects s' self = matroid_objects s self \<and>
     (case matroid_objects s self of
        None \<Rightarrow> True
      | Some obj \<Rightarrow> matroid_value s' obj = matroid_value s obj)"

definition returns_fresh_instance :: "store \<Rightarrow> (error + nat) \<times> store \<Rightarrow> bool" where
  "returns_fresh_instance s out \<longleftrightarrow>
     (case fst out of Inl e \<Rightarrow> True | Inr m \<Rightarrow> fresh_instance s (snd out) m)"

text \<open>The matroid that a returned reference stands for, to compare with the operations on values.\<close>

definition result_value :: "store \<Rightarrow> error + nat \<Rightarrow> error + GraphicMatroid" where
  "result_value s res =
     (case res of
        Inl e \<Rightarrow> Inl e
      | Inr m \<Rightarrow> (case matroid_objects s m of
                   None \<Rightarrow> Inl KeyError
                 | Some obj \<Rightarrow> Inr (matroid_value s obj)))"

text \<open>
  A store with the graph of the doctest of \<open>twist\<close> at reference 0 and the matroid built from
  it at reference 2 (its own graph object at reference 1).
\<close>

definition example_store :: store where
  "example_store =
     snd (st_init 0
            (snd (alloc_graph
                    (Graph [(0, 1, 0), (1, 2, 1), (1, 2, 2), (2, 3, 3), (2, 3, 4), (2, 3, 5),
                            (3, 0, 6)])
                    empty_store)))"

subsection \<open>Notions used in the proofs\<close>

text \<open>
  The adjacency relation of an edge list, and the relation of being joined by a path;
  \<open>map_edge\<close> renames the two ends of an edge.
\<close>

definition edge_rel :: "'l edge list \<Rightarrow> (vertex \<times> vertex) set" where
  "edge_rel es = {(u, v). \<exists>l. (u, v, l) \<in> set es \<or> (v, u, l) \<in> set es}"

definition conn :: "'l edge list \<Rightarrow> (vertex \<times> vertex) set" where
  "conn es = (edge_rel es)\<^sup>*"

definition map_edge :: "(vertex \<Rightarrow> vertex) \<Rightarrow> 'l edge \<Rightarrow> 'l edge" where
  "map_edge f e = (f (fst e), f (fst (snd e)), snd (snd e))"

definition roots :: "'l edge list \<Rightarrow> vertex \<Rightarrow> vertex" where
  "roots es = root (union_edges es (DisjointSet []))"

text \<open>The graph of the doctest of \<open>twist\<close>.\<close>

definition twist_example :: "label option graph" where
  "twist_example =
     Graph [(0, 1, Some 0), (1, 2, Some 1), (1, 2, Some 2), (2, 3, Some 3), (2, 3, Some 4),
            (2, 3, Some 5), (3, 0, Some 6)]"

text \<open>The edge that the dictionary of a matroid holds for a label.\<close>

definition edge_of :: "GraphicMatroid \<Rightarrow> label \<Rightarrow> label edge" where
  "edge_of M x = (fst (the (groundset_edge_map M x)), snd (the (groundset_edge_map M x)), x)"

section \<open>Properties\<close>

subsection \<open>The class invariant established by the constructor\<close>

lemma those_Some_map: "those xs = Some ls \<Longrightarrow> xs = map Some ls"
  by (induction xs arbitrary: ls) (auto split: option.splits)

lemma init_groundset_distinct:
  assumes "valid_input g gs"
  shows "distinct (init_groundset g gs) \<and> length (init_groundset g gs) = num_edges g"
proof -
  define given where "given = (case gs of None \<Rightarrow> edge_labels g | Some xs \<Rightarrow> xs)"
  show ?thesis
  proof (cases "those given")
    case None
    then show ?thesis by (simp add: init_groundset_def given_def)
  next
    case (Some ls)
    then have giv: "given = map Some ls" by (rule those_Some_map)
    show ?thesis
    proof (cases "length (remdups ls) \<noteq> num_edges g")
      case True
      then show ?thesis using Some by (simp add: init_groundset_def given_def)
    next
      case False
      have "distinct ls"
      proof (cases gs)
        case None
        then have "length ls = num_edges g"
          using giv by (metis given_def edge_labels_def length_map num_edges_def option.simps(4))
        then show ?thesis using False
          by (metis card_distinct distinct_card distinct_remdups length_remdups_card_conv)
      next
        case (Some xs)
        then have "distinct (map Some ls)" using assms giv by (simp add: valid_input_def given_def)
        then show ?thesis by (simp add: distinct_map)
      qed
      then show ?thesis using False Some
        by (simp add: init_groundset_def given_def[symmetric] distinct_remdups_id)
    qed
  qed
qed

lemma label_norm_edge [simp]: "snd (snd (norm_edge e)) = snd (snd e)"
  by (cases e) (simp add: norm_edge_def)

lemma edge_map_of_fold:
  "distinct (map (\<lambda>e. snd (snd e)) es) \<Longrightarrow>
   fold (\<lambda>(u, v, l) m. m(l \<mapsto> (u, v))) es m = m ++ map_of (map (\<lambda>(u, v, l). (l, (u, v))) es)"
proof (induction es arbitrary: m)
  case Nil
  then show ?case by simp
next
  case (Cons e es)
  obtain u v l where e: "e = (u, v, l)" by (cases e) auto
  have "fst ` set (map (\<lambda>(u, v, l). (l, (u, v))) es) = (\<lambda>e. snd (snd e)) ` set es"
    by force
  then have notin: "l \<notin> dom (map_of (map (\<lambda>(u, v, l). (l, (u, v))) es))"
    using Cons.prems by (simp add: e dom_map_of_conv_image_fst)
  have des: "distinct (map (\<lambda>e. snd (snd e)) es)"
    using Cons.prems by simp
  have "fold (\<lambda>(u, v, l) m. m(l \<mapsto> (u, v))) (e # es) m
        = fold (\<lambda>(u, v, l) m. m(l \<mapsto> (u, v))) es (m(l \<mapsto> (u, v)))"
    by (simp add: e)
  also have "\<dots> = m(l \<mapsto> (u, v)) ++ map_of (map (\<lambda>(u, v, l). (l, (u, v))) es)"
    by (rule Cons.IH[OF des])
  also have "\<dots> = (m ++ map_of (map (\<lambda>(u, v, l). (l, (u, v))) es))(l \<mapsto> (u, v))"
    using notin by (simp add: map_add_upd_left)
  also have "\<dots> = m ++ map_of (map (\<lambda>(u, v, l). (l, (u, v))) (e # es))"
    by (simp only: e list.simps(9) prod.case map_of.simps fst_conv snd_conv map_add_upd)
  finally show ?case .
qed

lemma edge_map_of_Some_iff:
  assumes "distinct (map (\<lambda>e. snd (snd e)) es)"
  shows "edge_map_of es l = Some (u, v) \<longleftrightarrow> (u, v, l) \<in> set es"
proof -
  have d: "distinct (map fst (map (\<lambda>(u, v, l). (l, (u, v))) es))"
    using assms by (simp add: comp_def case_prod_unfold)
  have "edge_map_of es = map_of (map (\<lambda>(u, v, l). (l, (u, v))) es)"
    using edge_map_of_fold[OF assms, of Map.empty] by (simp add: edge_map_of_def)
  then have "edge_map_of es l = Some (u, v) \<longleftrightarrow> (l, (u, v)) \<in> set (map (\<lambda>(u, v, l). (l, (u, v))) es)"
    using d by simp
  also have "\<dots> \<longleftrightarrow> (u, v, l) \<in> set es" by force
  finally show ?thesis .
qed

lemma init_labels:
  assumes "valid_input g gs"
  shows "mset (map (\<lambda>e. snd (snd e)) (edges (G (GraphicMatroid_init g gs)))) = mset (init_groundset g gs)"
proof -
  have len: "length (edges g) = length (init_groundset g gs)"
    using init_groundset_distinct[OF assms] by (simp add: num_edges_def)
  let ?vm = "join_components (rev (connected_components g)) (\<lambda>v. v)"
  let ?el = "map (\<lambda>((u, v, l0), l). (?vm u, ?vm v, l)) (zip (edges g) (init_groundset g gs))"
  have "map (\<lambda>e. snd (snd e)) ?el = map snd (zip (edges g) (init_groundset g gs))"
    by (simp add: case_prod_unfold)
  then have el: "map (\<lambda>e. snd (snd e)) ?el = init_groundset g gs"
    using len by simp
  have a: "mset (map (\<lambda>e. snd (snd e)) (sort (map norm_edge ?el))) = mset (map (\<lambda>e. snd (snd e)) ?el)"
    by (simp add: comp_def multiset.map_comp)
  have eq: "edges (G (GraphicMatroid_init g gs)) = sort (map norm_edge ?el)"
    by (simp add: GraphicMatroid_init_def Let_def Graph_def)
  show ?thesis unfolding eq a el by (rule refl)
qed

text \<open>The class invariant: labels are pairwise different, the ground set is the set of labels, and the
  dictionary holds the edge of every label.\<close>

lemma init_invariant:
  assumes "valid_input g gs" and "M = GraphicMatroid_init g gs"
  shows "distinct (map (\<lambda>e. snd (snd e)) (edges (G M)))"
    and "set (groundset M) = (\<lambda>e. snd (snd e)) ` set (edges (G M))"
    and "groundset_edge_map M l = Some (u, v) \<longleftrightarrow> (u, v, l) \<in> set (edges (G M))"
proof -
  have m: "mset (map (\<lambda>e. snd (snd e)) (edges (G M))) = mset (init_groundset g gs)"
    using init_labels[OF assms(1)] assms(2) by simp
  have d: "distinct (init_groundset g gs)"
    using init_groundset_distinct[OF assms(1)] by simp
  show 1: "distinct (map (\<lambda>e. snd (snd e)) (edges (G M)))"
    using mset_eq_imp_distinct_iff[OF m] d by simp
  have "set (groundset M) = set (init_groundset g gs)"
    by (simp add: assms(2) GraphicMatroid_init_def Let_def py_frozenset_def)
  also have "\<dots> = set (map (\<lambda>e. snd (snd e)) (edges (G M)))"
    using arg_cong[OF m, of set_mset] by simp
  finally show "set (groundset M) = (\<lambda>e. snd (snd e)) ` set (edges (G M))" by simp
  have "groundset_edge_map M = edge_map_of (edges (G M))"
    by (simp add: assms(2) GraphicMatroid_init_def Let_def)
  then show "groundset_edge_map M l = Some (u, v) \<longleftrightarrow> (u, v, l) \<in> set (edges (G M))"
    using edge_map_of_Some_iff[OF 1] by simp
qed

lemma groundset_to_edges_total:
  assumes "\<forall>x \<in> set X. \<exists>uv. groundset_edge_map M x = Some uv"
  shows "u_groundset_to_edges M X =
           Inr (map (\<lambda>x. (fst (the (groundset_edge_map M x)), snd (the (groundset_edge_map M x)), x)) X)"
  using assms by (induction X) (auto split: option.splits)

lemma init_lookup_defined:
  assumes "valid_input g gs" and "M = GraphicMatroid_init g gs" and "set X \<subseteq> set (groundset M)"
  shows "\<forall>x \<in> set X. \<exists>uv. groundset_edge_map M x = Some uv"
proof
  fix x assume "x \<in> set X"
  then have "x \<in> (\<lambda>e. snd (snd e)) ` set (edges (G M))"
    using assms(3) init_invariant(2)[OF assms(1,2)] by auto
  then obtain u v where "(u, v, x) \<in> set (edges (G M))" by force
  then have "groundset_edge_map M x = Some (u, v)"
    using init_invariant(3)[OF assms(1,2)] by simp
  then show "\<exists>uv. groundset_edge_map M x = Some uv" by blast
qed

lemma circuit_loop_labels:
  "set (circuit_loop es g acc) \<subseteq> set acc \<union> (\<lambda>e. snd (snd e)) ` set es"
proof (induction es arbitrary: g acc)
  case Nil
  then show ?case by simp
next
  case (Cons e es)
  show ?case
    using Cons.IH[of "add_edge (delete_edge g e) e" "acc @ [snd (snd e)]"]
          Cons.IH[of "delete_edge g e" acc]
    by (auto simp: Let_def)
qed

lemma groundset_to_edges_labels:
  "u_groundset_to_edges M X = Inr es \<Longrightarrow> map (\<lambda>e. snd (snd e)) es = X"
  by (induction X arbitrary: es) (auto split: option.splits sum.splits)

lemma Graph_labels: "(\<lambda>e. snd (snd e)) ` set (edges (Graph es)) = (\<lambda>e. snd (snd e)) ` set es"
  by (force simp: Graph_def)

text \<open>
  Claim C5. For a matroid built by the constructor and \<open>X\<close> inside the ground set, the
  subgraph of \<open>X\<close> exists, \<open>_circuit(X)\<close> raises the no-circuit error exactly when that
  subgraph is a forest, which is the value of \<open>_is_independent(X)\<close>, and when it is not a
  forest \<open>_circuit(X)\<close> returns a set of labels of \<open>X\<close>.
\<close>
theorem circuit_fails_iff_forest:
  assumes "valid_input g gs" and "M = GraphicMatroid_init g gs"
    and "set X \<subseteq> set (groundset M)"
  shows "\<exists>sub. u_subgraph_from_set M X = Inr sub \<and>
           (u_circuit M X = Inl NoCircuitInIndependentSet \<longleftrightarrow> is_forest sub) \<and>
           u_is_independent M X = Inr (is_forest sub) \<and>
           (\<not> is_forest sub \<longrightarrow> (\<exists>C. u_circuit M X = Inr C \<and> set C \<subseteq> set X))"
proof -
  obtain es where es: "u_groundset_to_edges M X = Inr es"
    using groundset_to_edges_total[OF init_lookup_defined[OF assms]] by blast
  have sub: "u_subgraph_from_set M X = Inr (Graph es)"
    by (simp add: u_subgraph_from_set_def es)
  have lab: "(\<lambda>e. snd (snd e)) ` set (edges (Graph es)) = set X"
    using groundset_to_edges_labels[OF es] Graph_labels[of es] by (metis list.set_map)
  have "set (py_frozenset (circuit_loop (edges (Graph es)) (Graph es) [])) \<subseteq> set X"
    using circuit_loop_labels[of "edges (Graph es)" "Graph es" "[]"] lab
    by (simp add: py_frozenset_def)
  then show ?thesis
    by (simp add: sub u_circuit_def u_is_independent_def)
qed

lemma loop_graph_not_forest: "\<not> is_forest (Graph [(u, u, L :: label)])"
  by (simp add: is_forest_def Graph_def endpoints_def num_verts_def num_edges_def norm_edge_def
      connected_components_number_def components_of_def union_edges_def DisjointSet_def
      union_def number_of_subsets_def)

text \<open>
  Claim C6. When the graph of a matroid built by the constructor has a loop labelled \<open>L\<close>,
  \<open>_is_independent([L])\<close> is false and \<open>L\<close> is in \<open>_closure(X)\<close> for every \<open>X\<close> inside the
  ground set, the empty one included.
\<close>
theorem loop_dependent_and_in_every_closure:
  assumes "valid_input g gs" and "M = GraphicMatroid_init g gs"
    and "(u, v, L) \<in> set (loops (G M))"
    and "set X \<subseteq> set (groundset M)"
  shows "u_is_independent M [L] = Inr False \<and> (\<exists>C. u_closure M X = Inr C \<and> L \<in> set C)"
proof -
  have uv: "u = v" and mem: "(u, v, L) \<in> set (edges (G M))"
    using assms(3) by (auto simp: loops_def)
  have look: "groundset_edge_map M L = Some (u, u)"
    using init_invariant(3)[OF assms(1,2), of L u u] mem uv by simp
  have "u_is_independent M [L] = Inr False"
    using loop_graph_not_forest[of u L]
    by (simp add: u_is_independent_def u_subgraph_from_set_def look)
  moreover have "\<exists>C. u_closure M X = Inr C \<and> L \<in> set C"
  proof -
    let ?X' = "remdups X"
    let ?Y = "filter (\<lambda>x. x \<notin> set ?X') (groundset M)"
    have "set ?Y \<subseteq> set (groundset M)" by auto
    then obtain ys where ys: "u_groundset_to_edges M ?Y = Inr ys"
      using groundset_to_edges_total[OF init_lookup_defined[OF assms(1,2)]] by blast
    have "set ?X' \<subseteq> set (groundset M)" using assms(4) by simp
    then obtain xs where xs: "u_groundset_to_edges M ?X' = Inr xs"
      using groundset_to_edges_total[OF init_lookup_defined[OF assms(1,2)]] by blast
    have "L \<in> set (map (\<lambda>(u, v, l). l) (loops (G M)))"
      using assms(3) by force
    then show ?thesis
      using ys xs by (simp add: u_closure_def Let_def u_subgraph_from_set_def py_frozenset_def)
  qed
  ultimately show ?thesis by blast
qed

theorem circuit_fails_iff_forest_witness:
  "valid_input DiamondGraph None \<and>
   set [0, 1, 2] \<subseteq> set (groundset (GraphicMatroid_init DiamondGraph None)) \<and>
   u_is_independent (GraphicMatroid_init DiamondGraph None) [0, 1, 2] = Inr False \<and>
   (\<exists>C. u_circuit (GraphicMatroid_init DiamondGraph None) [0, 1, 2] = Inr C \<and> set C \<subseteq> set [0, 1, 2])"
proof -
  let ?M = "GraphicMatroid_init DiamondGraph None"
  have h1: "valid_input DiamondGraph None" by (simp add: valid_input_def)
  have h3: "set [0, 1, 2] \<subseteq> set (groundset ?M)" by code_simp
  have c: "u_subgraph_from_set ?M [0, 1, 2] = Inr (Graph [(0, 1, 0), (0, 2, 1), (1, 2, 2)])"
    by code_simp
  have nf: "\<not> is_forest (Graph [(0, 1, 0 :: label), (0, 2, 1), (1, 2, 2)])" by code_simp
  from circuit_fails_iff_forest[OF h1 refl h3] c nf
  have "u_is_independent ?M [0, 1, 2] = Inr False \<and>
        (\<exists>C. u_circuit ?M [0, 1, 2] = Inr C \<and> set C \<subseteq> set [0, 1, 2])"
    by auto
  with h1 h3 show ?thesis by blast
qed

theorem loop_dependent_and_in_every_closure_witness:
  "valid_input looped_example None \<and>
   (0, 0, 0) \<in> set (loops (G (GraphicMatroid_init looped_example None))) \<and>
   set [] \<subseteq> set (groundset (GraphicMatroid_init looped_example None)) \<and>
   u_is_independent (GraphicMatroid_init looped_example None) [0] = Inr False \<and>
   (\<exists>C. u_closure (GraphicMatroid_init looped_example None) [] = Inr C \<and> 0 \<in> set C)"
proof -
  let ?M = "GraphicMatroid_init looped_example None"
  have h1: "valid_input looped_example None" by (simp add: valid_input_def)
  have h3: "(0, 0, 0) \<in> set (loops (G ?M))" by code_simp
  have h4: "set [] \<subseteq> set (groundset ?M)" by simp
  from loop_dependent_and_in_every_closure[OF h1 refl h3 h4] h1 h3 show ?thesis by simp
qed

text \<open>
  Claim C7, at the graph of the doctest of \<open>_is_closed\<close> with \<open>X\<close> the whole ground set:
  the only loop has its label in \<open>X\<close>, no edge lies outside \<open>X\<close>, and the closure of \<open>X\<close>
  is \<open>X\<close>; \<open>_is_closed(X)\<close> returns false, because the complement is computed after the
  loop labels were taken out of \<open>X\<close> and the loop sits on a vertex spanned by \<open>X\<close>.
\<close>
theorem is_closed_rejects_groundset_with_loop:
  "(let M = GraphicMatroid_init looped_example None; X = groundset M
    in X = [0, 1, 2, 3, 4, 5] \<and>
       loops (G M) = [(0, 0, 0)] \<and>
       set (map (\<lambda>(u, v, l). l) (loops (G M))) \<subseteq> set X \<and>
       filter (\<lambda>e. snd (snd e) \<notin> set X) (edges (G M)) = [] \<and>
       u_closure M X = Inr X \<and>
       u_is_closed M X = Inr False)"
  by code_simp

text \<open>
  Claim C3, at the graph with one loop on each of three vertices: every component is a
  single vertex, the constructor maps vertex 2 to 1 and vertex 1 to 0 without following
  the chain, and the graph it stores has two components, so it is not connected and the
  rank of the ground set is not the number of vertices minus one.
\<close>
theorem constructor_leaves_graph_disconnected:
  "(let M = GraphicMatroid_init (Graph [(0, 0, None), (1, 1, None), (2, 2, None)]) None
    in vertices (G M) = [0, 1] \<and>
       edges (G M) = [(0, 0, 0), (0, 0, 1), (1, 1, 2)] \<and>
       connected_components_number (G M) = 2 \<and>
       \<not> is_connected (G M) \<and>
       u_rank M (groundset M) = Inr 0 \<and>
       int (num_verts (G M)) - 1 = 1)"
  by code_simp

lemma components_listing_example:
  "connected_components (Graph [(0, 1, None :: label option), (2, 2, None), (3, 3, None)])
     = [[0, 1], [2], [3]]"
  by code_simp

text \<open>
  Claim C4, at the graph with the edge \<open>(0, 1)\<close> and loops on the vertices 2 and 3: the
  components are listed as \<open>[[0, 1], [2], [3]]\<close>, the stored graph keeps an isolated loop,
  and the rank of the ground set is 1 while the number of vertices minus one is 2.
\<close>
theorem rank_of_groundset_below_vertices_minus_one:
  "(let M = GraphicMatroid_init (Graph [(0, 1, None), (2, 2, None), (3, 3, None)]) None
    in edges (G M) = [(0, 1, 0), (1, 1, 1), (2, 2, 2)] \<and>
       vertices (G M) = [0, 1, 2] \<and>
       u_rank M (groundset M) = Inr 1 \<and>
       int (num_verts (G M)) - 1 = 2)"
  by code_simp

text \<open>
  Claim C1, at the triangle extended by the new label 7 between the vertex 0 and the
  identifier 3 that is not yet a vertex: the new edge is a pendant edge, 7 is a coloop of
  the result, and the rank of the ground set grows from 2 to 3.
\<close>
theorem extension_to_new_vertex_is_coloop:
  "(let M = GraphicMatroid_init (Graph [(0, 1, None), (0, 2, None), (1, 2, None)]) None
    in is_connected (G M) \<and> 7 \<notin> set (groundset M) \<and>
       (case graphic_extension M 0 (Some 3) (Some 7) of
          Inl e \<Rightarrow> False
        | Inr N \<Rightarrow>
            edges (G N) = [(0, 1, 0), (0, 2, 1), (0, 3, 7), (1, 2, 2)] \<and>
            groundset N = [0, 1, 2, 7] \<and>
            coloops N = Inr [7] \<and>
            u_rank N [0, 1, 2, 7] = Inr 3 \<and>
            u_rank N [0, 1, 2] = Inr 2))"
  by code_simp

text \<open>
  Claim C10. \<open>M == other\<close> is false and \<open>M != other\<close> is true when \<open>other\<close> is not a
  \<open>GraphicMatroid\<close>, also when it holds the very graph of \<open>M\<close>; between two graphic
  matroids \<open>==\<close> holds exactly when the vertex lists and the labelled edge lists are equal.
\<close>
theorem eq_needs_class_and_equal_graphs:
  "matroid_eq M (Other_Object g) = False \<and>
   matroid_ne M (Other_Object g) = True \<and>
   matroid_eq M (Other_Object (G M)) = False \<and>
   (matroid_eq M (A_GraphicMatroid N) \<longleftrightarrow> vertices (G M) = vertices (G N) \<and> edges (G M) = edges (G N)) \<and>
   (matroid_ne M (A_GraphicMatroid N) \<longleftrightarrow> \<not> matroid_eq M (A_GraphicMatroid N))"
  by (auto simp: matroid_eq_def matroid_ne_def)

text \<open>
  Claim C8. Equal graphic matroids have equal hashes, whatever the hash \<open>h\<close> of the
  vertex stars is; the converse fails: the 4-cycle and the complete bipartite graph on
  2 + 2 vertices give unequal matroids with the same vertex stars, hence the same hash.
\<close>
theorem equal_matroids_hash_equal:
  "(\<forall>h M N. matroid_eq M (A_GraphicMatroid N) \<longrightarrow> matroid_hash h M = matroid_hash h N) \<and>
   (\<forall>h. matroid_hash h (GraphicMatroid_init CycleGraph4 None)
          = matroid_hash h (GraphicMatroid_init CompleteBipartiteGraph22 None)) \<and>
   \<not> matroid_eq (GraphicMatroid_init CycleGraph4 None)
        (A_GraphicMatroid (GraphicMatroid_init CompleteBipartiteGraph22 None))"
proof -
  have 1: "\<forall>h M N. matroid_eq M (A_GraphicMatroid N) \<longrightarrow> matroid_hash h M = matroid_hash h N"
    by (simp add: matroid_eq_def matroid_hash_def u_vertex_stars_def)
  have "u_vertex_stars (GraphicMatroid_init CycleGraph4 None)
        = u_vertex_stars (GraphicMatroid_init CompleteBipartiteGraph22 None)"
    by code_simp
  then have 2: "\<forall>h. matroid_hash h (GraphicMatroid_init CycleGraph4 None)
          = matroid_hash h (GraphicMatroid_init CompleteBipartiteGraph22 None)"
    by (simp add: matroid_hash_def)
  have 3: "\<not> matroid_eq (GraphicMatroid_init CycleGraph4 None)
        (A_GraphicMatroid (GraphicMatroid_init CompleteBipartiteGraph22 None))"
    by code_simp
  from 1 2 3 show ?thesis by blast
qed

theorem equal_matroids_hash_equal_witness:
  "matroid_eq (GraphicMatroid_init (Graph [(0, 1, Some 7), (0, 2, Some 8), (1, 2, Some 9)]) None)
     (A_GraphicMatroid
        (GraphicMatroid_init (Graph [(2, 1, Some 9), (0, 1, Some 7), (2, 0, Some 8)]) None)) \<and>
   matroid_hash (\<lambda>S. int (card S))
     (GraphicMatroid_init (Graph [(0, 1, Some 7), (0, 2, Some 8), (1, 2, Some 9)]) None)
   = matroid_hash (\<lambda>S. int (card S))
     (GraphicMatroid_init (Graph [(2, 1, Some 9), (0, 1, Some 7), (2, 0, Some 8)]) None)"
proof -
  let ?M = "GraphicMatroid_init (Graph [(0, 1, Some 7), (0, 2, Some 8), (1, 2, Some 9)]) None"
  let ?N = "GraphicMatroid_init (Graph [(2, 1, Some 9), (0, 1, Some 7), (2, 0, Some 8)]) None"
  have h: "matroid_eq ?M (A_GraphicMatroid ?N)" by code_simp
  from equal_matroids_hash_equal h show ?thesis by blast
qed

subsection \<open>Union-find and paths\<close>

lemma root_union_edges_cong:
  "root D = root D' \<Longrightarrow> root (union_edges es D) = root (union_edges es D')"
proof (induction es arbitrary: D D')
  case Nil
  then show ?case by (simp add: union_edges_def)
next
  case (Cons e es)
  obtain u v l where e: "e = (u, v, l)" by (cases e) auto
  have "root (union D u v) = (\<lambda>x. if root D x = root D u then root D v else root D x)"
       "root (union D' u v) = (\<lambda>x. if root D' x = root D' u then root D' v else root D' x)"
    by (simp_all add: union_def)
  then have "root (union D u v) = root (union D' u v)"
    by (simp only: Cons.prems)
  from Cons.IH[OF this] show ?case
    by (simp add: union_edges_def e)
qed

lemma root_union_edges: "root (union_edges es (DisjointSet vs)) = roots es"
  unfolding roots_def by (rule root_union_edges_cong) (simp add: DisjointSet_def)

lemma elems_union_edges: "elems (union_edges es D) = elems D"
  by (induction es arbitrary: D) (auto simp: union_edges_def union_def)

lemma elems_DisjointSet: "elems (DisjointSet vs) = vs"
  by (simp add: DisjointSet_def)

lemma roots_Nil [simp]: "roots [] = (\<lambda>x. x)"
  by (simp add: roots_def union_edges_def DisjointSet_def)

lemma roots_snoc:
  "roots (es @ [e]) =
     (\<lambda>x. if roots es x = roots es (fst e) then roots es (fst (snd e)) else roots es x)"
proof -
  obtain u v l where e: "e = (u, v, l)" by (cases e) auto
  have "roots (es @ [e]) = root (union (union_edges es (DisjointSet [])) u v)"
    by (simp add: roots_def union_edges_def e)
  also have "\<dots> = (\<lambda>x. if roots es x = roots es u then roots es v else roots es x)"
    unfolding roots_def by (simp add: union_def)
  finally show ?thesis unfolding e by (simp cong del: if_weak_cong)
qed

lemma edge_rel_Nil [simp]: "edge_rel [] = {}"
  by (simp add: edge_rel_def)

lemma edge_rel_snoc:
  "edge_rel (es @ [e]) = insert (fst e, fst (snd e)) (insert (fst (snd e), fst e) (edge_rel es))"
  by (cases e) (auto simp: edge_rel_def)

lemma edge_rel_append: "edge_rel (xs @ ys) = edge_rel xs \<union> edge_rel ys"
  by (auto simp: edge_rel_def)

lemma sym_edge_rel: "sym (edge_rel es)"
  by (auto simp: edge_rel_def sym_def)

lemma conn_refl [simp]: "(x, x) \<in> conn es"
  by (simp add: conn_def)

lemma conn_sym: "(x, y) \<in> conn es \<Longrightarrow> (y, x) \<in> conn es"
  unfolding conn_def using sym_rtrancl[OF sym_edge_rel] by (meson symD)

lemma conn_trans: "(x, y) \<in> conn es \<Longrightarrow> (y, z) \<in> conn es \<Longrightarrow> (x, z) \<in> conn es"
  unfolding conn_def by (rule rtrancl_trans)

lemma conn_mono: "set xs \<subseteq> set ys \<Longrightarrow> conn xs \<subseteq> conn ys"
  unfolding conn_def by (rule rtrancl_mono) (auto simp: edge_rel_def)

lemma conn_snoc:
  "(x, y) \<in> conn (es @ [e]) \<longleftrightarrow>
     (x, y) \<in> conn es \<or>
     ((x, fst e) \<in> conn es \<and> (fst (snd e), y) \<in> conn es) \<or>
     ((x, fst (snd e)) \<in> conn es \<and> (fst e, y) \<in> conn es)"
  (is "?L \<longleftrightarrow> ?R x y")
proof
  assume ?L
  then have "(x, y) \<in> (edge_rel (es @ [e]))\<^sup>*" by (simp add: conn_def)
  then show "?R x y"
  proof (induction rule: rtrancl_induct)
    case base
    then show ?case by simp
  next
    case (step y z)
    from step.hyps(2) consider "(y, z) \<in> edge_rel es" | "y = fst e \<and> z = fst (snd e)"
      | "y = fst (snd e) \<and> z = fst e"
      by (auto simp: edge_rel_snoc)
    then show ?case
    proof cases
      case 1
      then have "(y, z) \<in> conn es" by (simp add: conn_def)
      with step.IH show ?thesis by (meson conn_trans)
    next
      case 2
      with step.IH show ?thesis by (meson conn_trans conn_sym conn_refl)
    next
      case 3
      with step.IH show ?thesis by (meson conn_trans conn_sym conn_refl)
    qed
  qed
next
  have sub: "conn es \<subseteq> conn (es @ [e])"
    by (rule conn_mono) auto
  have e1: "(fst e, fst (snd e)) \<in> conn (es @ [e])"
    unfolding conn_def by (rule r_into_rtrancl) (simp add: edge_rel_snoc)
  have e2: "(fst (snd e), fst e) \<in> conn (es @ [e])"
    using e1 by (rule conn_sym)
  assume "?R x y"
  then show ?L
    using sub e1 e2 by (meson conn_trans subsetD)
qed

lemma roots_conn: "roots es x = roots es y \<longleftrightarrow> (x, y) \<in> conn es"
proof (induction es arbitrary: x y rule: rev_induct)
  case Nil
  then show ?case by (simp add: conn_def)
next
  case (snoc e es)
  show ?case
    unfolding conn_snoc roots_snoc snoc.IH[symmetric] by auto
qed

lemma set_endpoints: "set (endpoints es) = fst ` set es \<union> (\<lambda>e. fst (snd e)) ` set es"
  by (induction es) (auto simp: endpoints_def)

lemma edge_rel_endpoints:
  "(x, y) \<in> edge_rel es \<Longrightarrow> x \<in> set (endpoints es) \<and> y \<in> set (endpoints es)"
  by (force simp: edge_rel_def set_endpoints)

lemma conn_support:
  assumes "(x, y) \<in> conn es" and "x \<noteq> y"
  shows "x \<in> set (endpoints es) \<and> y \<in> set (endpoints es)"
proof -
  from assms have r: "(x, y) \<in> (edge_rel es)\<^sup>*" by (simp add: conn_def)
  from r assms(2) obtain z where "(x, z) \<in> edge_rel es"
    by (auto elim: converse_rtranclE)
  moreover from r assms(2) obtain z' where "(z', y) \<in> edge_rel es"
    by (auto elim: rtranclE)
  ultimately show ?thesis using edge_rel_endpoints by blast
qed

lemma roots_outside: "x \<notin> set (endpoints es) \<Longrightarrow> roots es x = x"
proof (induction es rule: rev_induct)
  case Nil
  then show ?case by simp
next
  case (snoc e es)
  then have out: "x \<notin> set (endpoints es)" and ne: "x \<noteq> fst e"
    by (auto simp: set_endpoints)
  then have a: "roots es x = x" using snoc.IH by simp
  have "roots es x \<noteq> roots es (fst e)"
    using conn_support[of x "fst e" es] out ne by (auto simp: roots_conn)
  then show ?case using a by (simp add: roots_snoc)
qed

lemma roots_idem: "roots es (roots es x) = roots es x"
proof (induction es arbitrary: x rule: rev_induct)
  case Nil
  then show ?case by simp
next
  case (snoc e es)
  show ?case by (simp add: roots_snoc snoc.IH)
qed

lemma roots_inside: "x \<in> set (endpoints es) \<Longrightarrow> roots es x \<in> set (endpoints es)"
proof -
  assume x: "x \<in> set (endpoints es)"
  have "(x, roots es x) \<in> conn es"
    using roots_idem[of es x] by (simp add: roots_conn[symmetric])
  then show ?thesis using conn_support[of x "roots es x" es] x by (cases "x = roots es x") auto
qed

lemma rank_of_edges_card:
  "rank_of_edges es =
     int (card (set (endpoints es))) - int (card (roots es ` set (endpoints es)))"
proof -
  let ?vs = "remdups (map (\<lambda>(u, v, l). u) es @ map (\<lambda>(u, v, l). v) es)"
  have vs: "set ?vs = set (endpoints es)"
    by (force simp: set_endpoints)
  have len: "length ?vs = card (set (endpoints es))"
    using vs distinct_card[of ?vs] by simp
  have "number_of_subsets (union_edges es (DisjointSet ?vs)) = card (roots es ` set ?vs)"
    by (simp add: number_of_subsets_def elems_union_edges root_union_edges elems_DisjointSet
        length_remdups_card_conv)
  then show ?thesis
    using len vs by (simp add: rank_of_edges_def Let_def)
qed

lemma rank_snoc:
  "rank_of_edges (es @ [e]) =
     rank_of_edges es + (if (fst e, fst (snd e)) \<in> conn es then 0 else 1)"
proof -
  let ?u = "fst e" and ?v = "fst (snd e)"
  let ?V = "set (endpoints es)" and ?V' = "set (endpoints (es @ [e]))"
  let ?r = "roots es" and ?r' = "roots (es @ [e])"
  let ?N = "?V' - ?V"
  have V': "?V' = ?V \<union> {?u, ?v}" by (auto simp: set_endpoints)
  have fin: "finite ?V" "finite ?V'" by simp_all
  have img: "?r ` ?V' = ?r ` ?V \<union> ?N"
  proof -
    have "?r ` ?N = ?N" using roots_outside[of _ es] by force
    moreover have "?V' = ?V \<union> ?N" using V' by auto
    ultimately show ?thesis by (metis image_Un)
  qed
  have disj: "?r ` ?V \<inter> ?N = {}" using roots_inside[of _ es] by auto
  have card_img: "card (?r ` ?V') = card (?r ` ?V) + card ?N"
    unfolding img using disj fin by (simp add: card_Un_disjoint)
  have card_V': "card ?V' = card ?V + card ?N"
  proof -
    have "?V' = ?V \<union> ?N" "?V \<inter> ?N = {}" using V' by auto
    then show ?thesis using fin by (metis card_Un_disjoint finite_Diff)
  qed
  have uv: "?r ?u \<in> ?r ` ?V'" "?r ?v \<in> ?r ` ?V'" using V' by auto
  have r': "?r' = (\<lambda>x. if ?r x = ?r ?u then ?r ?v else ?r x)" by (rule roots_snoc)
  have card_r': "int (card (?r' ` ?V')) =
      int (card (?r ` ?V')) - (if (?u, ?v) \<in> conn es then 0 else 1)"
  proof (cases "?r ?u = ?r ?v")
    case True
    then have "?r' = ?r" unfolding r' by auto
    then show ?thesis using True by (simp add: roots_conn)
  next
    case False
    have "?r' ` ?V' = ?r ` ?V' - {?r ?u}"
    proof
      show "?r' ` ?V' \<subseteq> ?r ` ?V' - {?r ?u}" unfolding r' using False uv by auto
      show "?r ` ?V' - {?r ?u} \<subseteq> ?r' ` ?V'"
      proof
        fix z assume "z \<in> ?r ` ?V' - {?r ?u}"
        then obtain x where "x \<in> ?V'" "z = ?r x" "?r x \<noteq> ?r ?u" by auto
        then have "?r' x = z" unfolding r' by simp
        then show "z \<in> ?r' ` ?V'" using \<open>x \<in> ?V'\<close> by blast
      qed
    qed
    then have "card (?r' ` ?V') = card (?r ` ?V') - 1"
      using uv by simp
    moreover have "card (?r ` ?V') \<ge> 1"
      using uv fin by (metis One_nat_def Suc_leI card_gt_0_iff empty_iff finite_imageI)
    ultimately show ?thesis using False by (simp add: roots_conn)
  qed
  show ?thesis
    unfolding rank_of_edges_card[of "es @ [e]"] rank_of_edges_card[of es]
    using card_r' card_img card_V' by simp
qed

subsection \<open>Two edge sets that meet in at most two vertices\<close>

lemma two_sided_reach:
  fixes A B :: "('a \<times> 'a) set"
  assumes rA: "\<And>x. (x, x) \<in> A" and sA: "\<And>x y. (x, y) \<in> A \<Longrightarrow> (y, x) \<in> A"
    and tA: "\<And>x y z. (x, y) \<in> A \<Longrightarrow> (y, z) \<in> A \<Longrightarrow> (x, z) \<in> A"
    and rB: "\<And>x. (x, x) \<in> B" and sB: "\<And>x y. (x, y) \<in> B \<Longrightarrow> (y, x) \<in> B"
    and tB: "\<And>x y z. (x, y) \<in> B \<Longrightarrow> (y, z) \<in> B \<Longrightarrow> (x, z) \<in> B"
    and supA: "\<And>x y. (x, y) \<in> A \<Longrightarrow> x \<noteq> y \<Longrightarrow> x \<in> VA \<and> y \<in> VA"
    and supB: "\<And>x y. (x, y) \<in> B \<Longrightarrow> x \<noteq> y \<Longrightarrow> x \<in> VB \<and> y \<in> VB"
    and shared: "VA \<inter> VB \<subseteq> {a, b}"
    and p: "p \<notin> VA \<or> p = a \<or> p = b" and q: "q \<notin> VA \<or> q = a \<or> q = b"
  shows "(p, q) \<in> (A \<union> B)\<^sup>* \<longleftrightarrow>
           (p, q) \<in> B \<or>
           ((a, b) \<in> A \<and> (((p, a) \<in> B \<and> (b, q) \<in> B) \<or> ((p, b) \<in> B \<and> (a, q) \<in> B)))"
    (is "?L \<longleftrightarrow> ?R")
proof
  define QB where "QB w \<longleftrightarrow> (p, w) \<in> B \<or>
      ((a, b) \<in> A \<and> (((p, a) \<in> B \<and> (b, w) \<in> B) \<or> ((p, b) \<in> B \<and> (a, w) \<in> B)))" for w
  define QM where "QM w \<longleftrightarrow> ((p, a) \<in> B \<and> (a, w) \<in> A) \<or> ((p, b) \<in> B \<and> (b, w) \<in> A)" for w
  have QBa: "QB a \<longleftrightarrow> QM a" unfolding QB_def QM_def using rA rB sA sB tB by blast
  have QBb: "QB b \<longleftrightarrow> QM b" unfolding QB_def QM_def using rA rB sA sB tB by blast
  assume ?L
  then have "(w \<notin> VA \<or> w = a \<or> w = b \<longrightarrow> QB w) \<and> (w \<in> VA \<or> w = a \<or> w = b \<longrightarrow> QM w)"
    if "w = q" for w
    unfolding that
  proof (induction rule: rtrancl_induct)
    case base
    have "QB p" unfolding QB_def using rB by blast
    moreover have "QM p" if "p = a \<or> p = b" using that unfolding QM_def using rA rB by blast
    ultimately show ?case using p by blast
  next
    case (step y z)
    show ?case
    proof (cases "y = z")
      case True
      then show ?thesis using step.IH by simp
    next
      case False
      from step.hyps(2) consider (A) "(y, z) \<in> A" | (B) "(y, z) \<in> B" by blast
      then show ?thesis
      proof cases
        case A
        then have yz: "y \<in> VA" "z \<in> VA" using supA False by blast+
        then have "QM y" using step.IH by blast
        then have QMz: "QM z" unfolding QM_def using A tA by blast
        have "QB z" if "z \<notin> VA \<or> z = a \<or> z = b"
          using that yz QMz QBa QBb by blast
        then show ?thesis using QMz by blast
      next
        case B
        then have yz: "y \<in> VB" "z \<in> VB" using supB False by blast+
        then have "y \<notin> VA \<or> y = a \<or> y = b" using shared by blast
        then have "QB y" using step.IH by blast
        then have QBz: "QB z" unfolding QB_def using B tB by blast
        have "QM z" if "z \<in> VA \<or> z = a \<or> z = b"
        proof -
          from that yz shared have "z = a \<or> z = b" by blast
          then show ?thesis using QBz QBa QBb by blast
        qed
        then show ?thesis using QBz by blast
      qed
    qed
  qed
  then have "QB q" using q by blast
  then show ?R unfolding QB_def .
next
  have AB: "A \<subseteq> (A \<union> B)\<^sup>*" "B \<subseteq> (A \<union> B)\<^sup>*" by auto
  assume ?R
  then show ?L
    using AB sA[of a b] by (meson rtrancl_trans subsetD)
qed

lemma exchange_simps [simp]:
  "exchange a b a = b" "exchange a b b = a" "exchange a b (exchange a b x) = x"
  by (auto simp: exchange_def)

lemma exchange_other: "x \<noteq> a \<Longrightarrow> x \<noteq> b \<Longrightarrow> exchange a b x = x"
  by (simp add: exchange_def)

lemma map_edge_simps [simp]:
  "fst (map_edge f e) = f (fst e)" "fst (snd (map_edge f e)) = f (fst (snd e))"
  "snd (snd (map_edge f e)) = snd (snd e)"
  by (simp_all add: map_edge_def)

lemma edge_rel_map: "edge_rel (map (map_edge f) es) = map_prod f f ` edge_rel es"
proof -
  have "(x, y) \<in> edge_rel (map (map_edge f) es) \<longleftrightarrow> (x, y) \<in> map_prod f f ` edge_rel es" for x y
    by (force simp: edge_rel_def map_edge_def image_iff)
  then show ?thesis by auto
qed

lemma conn_map_imp: "(x, y) \<in> conn es \<Longrightarrow> (f x, f y) \<in> conn (map (map_edge f) es)"
  unfolding conn_def
proof (induction rule: rtrancl_induct)
  case base
  then show ?case by simp
next
  case (step y z)
  then have "(f y, f z) \<in> edge_rel (map (map_edge f) es)"
    by (force simp: edge_rel_map)
  with step.IH show ?case by (rule rtrancl_into_rtrancl)
qed

lemma conn_map_involution:
  assumes inv: "\<And>x. f (f x) = x"
  shows "(f x, f y) \<in> conn (map (map_edge f) es) \<longleftrightarrow> (x, y) \<in> conn es"
proof
  assume "(f x, f y) \<in> conn (map (map_edge f) es)"
  from conn_map_imp[OF this, of f]
  have "(x, y) \<in> conn (map (map_edge f) (map (map_edge f) es))" by (simp add: inv)
  moreover have "map (map_edge f) (map (map_edge f) es) = es"
    by (simp add: map_edge_def inv comp_def)
  ultimately show "(x, y) \<in> conn es" by simp
qed (rule conn_map_imp)

lemma conn_append: "conn (xs @ ys) = (conn xs \<union> conn ys)\<^sup>*"
  by (simp add: conn_def edge_rel_append rtrancl_Un_rtrancl)

lemma edge_rel_set_cong: "set xs = set ys \<Longrightarrow> edge_rel xs = edge_rel ys"
  by (simp add: edge_rel_def)

lemma conn_split:
  "conn es = (conn (filter P es) \<union> conn (filter (\<lambda>e. \<not> P e) es))\<^sup>*"
proof -
  have "edge_rel es = edge_rel (filter P es @ filter (\<lambda>e. \<not> P e) es)"
    by (rule edge_rel_set_cong) auto
  then have "conn es = conn (filter P es @ filter (\<lambda>e. \<not> P e) es)" by (simp add: conn_def)
  then show ?thesis by (simp add: conn_append)
qed

subsection \<open>Exchanging two vertices on one side keeps the rank\<close>

lemma endpoints_map_edge: "set (endpoints (map (map_edge f) es)) = f ` set (endpoints es)"
  by (auto simp: set_endpoints image_iff) force+

lemma endpoints_memI:
  "e \<in> set es \<Longrightarrow> fst e \<in> set (endpoints es) \<and> fst (snd e) \<in> set (endpoints es)"
  by (auto simp: set_endpoints)

lemma endpoints_mono: "set xs \<subseteq> set ys \<Longrightarrow> set (endpoints xs) \<subseteq> set (endpoints ys)"
  by (auto simp: set_endpoints)

lemma twist_conn:
  fixes U :: "'l edge list"
  assumes shared: "set (endpoints (filter inA U)) \<inter> set (endpoints (filter (\<lambda>e. \<not> inA e) U))
                     \<subseteq> {a, b}"
    and sub: "set Y \<subseteq> set U" and e: "e \<in> set U"
    and tw: "tw = (\<lambda>e. if inA e then map_edge (exchange a b) e else e)"
  shows "(fst (tw e), fst (snd (tw e))) \<in> conn (map tw Y) \<longleftrightarrow> (fst e, fst (snd e)) \<in> conn Y"
proof -
  let ?f = "exchange a b"
  let ?Y1 = "filter inA Y" and ?Y2 = "filter (\<lambda>e. \<not> inA e) Y"
  let ?A = "conn ?Y1" and ?B = "conn ?Y2" and ?A' = "conn (map (map_edge ?f) ?Y1)"
  let ?VA = "set (endpoints (filter inA U))" and ?VB = "set (endpoints (filter (\<lambda>e. \<not> inA e) U))"
  let ?p = "fst e" and ?q = "fst (snd e)"
  have cY: "conn Y = (?A \<union> ?B)\<^sup>*" by (rule conn_split)
  have "edge_rel (map tw Y) = edge_rel (map (map_edge ?f) ?Y1 @ ?Y2)"
    by (rule edge_rel_set_cong) (auto simp: tw)
  then have cY': "conn (map tw Y) = (?A' \<union> ?B)\<^sup>*"
    by (simp add: conn_def edge_rel_append rtrancl_Un_rtrancl)
  have subA: "set (endpoints ?Y1) \<subseteq> ?VA" and subB: "set (endpoints ?Y2) \<subseteq> ?VB"
    using sub by (auto intro!: endpoints_mono)
  have supA: "x \<in> ?VA \<and> y \<in> ?VA" if "(x, y) \<in> ?A" "x \<noteq> y" for x y
    using conn_support[OF that] subA by blast
  have supB: "x \<in> ?VB \<and> y \<in> ?VB" if "(x, y) \<in> ?B" "x \<noteq> y" for x y
    using conn_support[OF that] subB by blast
  have supA': "x \<in> ?f ` ?VA \<and> y \<in> ?f ` ?VA" if "(x, y) \<in> ?A'" "x \<noteq> y" for x y
    using conn_support[OF that] subA by (auto simp: endpoints_map_edge)
  have shared': "?f ` ?VA \<inter> ?VB \<subseteq> {a, b}"
  proof
    fix x assume "x \<in> ?f ` ?VA \<inter> ?VB"
    then obtain y where y: "y \<in> ?VA" "x = ?f y" "x \<in> ?VB" by blast
    show "x \<in> {a, b}"
    proof (cases "y = a \<or> y = b")
      case True
      then show ?thesis using y(2) by auto
    next
      case False
      then have "x = y" using y(2) by (simp add: exchange_def)
      then show ?thesis using y shared by blast
    qed
  qed
  have iso: "(?f x, ?f y) \<in> ?A' \<longleftrightarrow> (x, y) \<in> ?A" for x y
    by (rule conn_map_involution) simp
  have ab: "(a, b) \<in> ?A' \<longleftrightarrow> (a, b) \<in> ?A"
    using iso[of b a] conn_sym[of a b ?Y1] conn_sym[of b a ?Y1] by auto
  show ?thesis
  proof (cases "inA e")
    case False
    then have pq: "?p \<in> ?VB" "?q \<in> ?VB"
      using e endpoints_memI[of e "filter (\<lambda>e. \<not> inA e) U"] by simp_all
    have twe: "tw e = e" using False by (simp add: tw)
    have c1: "?p \<notin> ?VA \<or> ?p = a \<or> ?p = b" "?q \<notin> ?VA \<or> ?q = a \<or> ?q = b"
      using pq shared by blast+
    have c2: "?p \<notin> ?f ` ?VA \<or> ?p = a \<or> ?p = b" "?q \<notin> ?f ` ?VA \<or> ?q = a \<or> ?q = b"
      using pq shared' by blast+
    have "(?p, ?q) \<in> (?A \<union> ?B)\<^sup>* \<longleftrightarrow>
           (?p, ?q) \<in> ?B \<or>
           ((a, b) \<in> ?A \<and> (((?p, a) \<in> ?B \<and> (b, ?q) \<in> ?B) \<or> ((?p, b) \<in> ?B \<and> (a, ?q) \<in> ?B)))"
      by (rule two_sided_reach[where A = ?A and B = ?B and VA = ?VA and VB = ?VB,
            OF conn_refl conn_sym conn_trans conn_refl conn_sym conn_trans supA supB shared c1])
    moreover have "(?p, ?q) \<in> (?A' \<union> ?B)\<^sup>* \<longleftrightarrow>
           (?p, ?q) \<in> ?B \<or>
           ((a, b) \<in> ?A' \<and> (((?p, a) \<in> ?B \<and> (b, ?q) \<in> ?B) \<or> ((?p, b) \<in> ?B \<and> (a, ?q) \<in> ?B)))"
      by (rule two_sided_reach[where A = ?A' and B = ?B and VA = "?f ` ?VA" and VB = ?VB,
            OF conn_refl conn_sym conn_trans conn_refl conn_sym conn_trans supA' supB shared' c2])
    ultimately show ?thesis unfolding cY cY' twe ab by blast
  next
    case True
    then have pq: "?p \<in> ?VA" "?q \<in> ?VA"
      using e endpoints_memI[of e "filter inA U"] by simp_all
    have twe: "fst (tw e) = ?f ?p" "fst (snd (tw e)) = ?f ?q" using True by (simp_all add: tw)
    have c1: "?p \<notin> ?VB \<or> ?p = a \<or> ?p = b" "?q \<notin> ?VB \<or> ?q = a \<or> ?q = b"
      using pq shared by blast+
    have fx: "?f x \<notin> ?VB \<or> ?f x = a \<or> ?f x = b" if "x \<in> ?VA" for x
    proof (cases "x = a \<or> x = b")
      case True
      then show ?thesis by auto
    next
      case False
      then have "?f x = x" by (simp add: exchange_def)
      then show ?thesis using that shared by auto
    qed
    have sh: "?VB \<inter> ?VA \<subseteq> {a, b}" using shared by blast
    have sh': "?VB \<inter> ?f ` ?VA \<subseteq> {a, b}" using shared' by blast
    have "(?p, ?q) \<in> (?B \<union> ?A)\<^sup>* \<longleftrightarrow>
           (?p, ?q) \<in> ?A \<or>
           ((a, b) \<in> ?B \<and> (((?p, a) \<in> ?A \<and> (b, ?q) \<in> ?A) \<or> ((?p, b) \<in> ?A \<and> (a, ?q) \<in> ?A)))"
      by (rule two_sided_reach[where A = ?B and B = ?A and VA = ?VB and VB = ?VA,
            OF conn_refl conn_sym conn_trans conn_refl conn_sym conn_trans supB supA sh c1])
    moreover have "(?f ?p, ?f ?q) \<in> (?B \<union> ?A')\<^sup>* \<longleftrightarrow>
           (?f ?p, ?f ?q) \<in> ?A' \<or>
           ((a, b) \<in> ?B \<and> (((?f ?p, a) \<in> ?A' \<and> (b, ?f ?q) \<in> ?A') \<or>
                            ((?f ?p, b) \<in> ?A' \<and> (a, ?f ?q) \<in> ?A')))"
      by (rule two_sided_reach[where A = ?B and B = ?A' and VA = ?VB and VB = "?f ` ?VA",
            OF conn_refl conn_sym conn_trans conn_refl conn_sym conn_trans supB supA' sh'
               fx[OF pq(1)] fx[OF pq(2)]])
    moreover have "(?f ?p, a) \<in> ?A' \<longleftrightarrow> (?p, b) \<in> ?A" using iso[of ?p b] by simp
    moreover have "(?f ?p, b) \<in> ?A' \<longleftrightarrow> (?p, a) \<in> ?A" using iso[of ?p a] by simp
    moreover have "(a, ?f ?q) \<in> ?A' \<longleftrightarrow> (b, ?q) \<in> ?A" using iso[of b ?q] by simp
    moreover have "(b, ?f ?q) \<in> ?A' \<longleftrightarrow> (a, ?q) \<in> ?A" using iso[of a ?q] by simp
    ultimately show ?thesis
      unfolding cY cY' twe Un_commute[of ?A ?B] Un_commute[of ?A' ?B] iso by blast
  qed
qed

lemma twist_rank:
  fixes U :: "label edge list"
  assumes shared: "set (endpoints (filter inA U)) \<inter> set (endpoints (filter (\<lambda>e. \<not> inA e) U))
                     \<subseteq> {a, b}"
    and sub: "set Y \<subseteq> set U"
    and tw: "tw = (\<lambda>e. if inA e then map_edge (exchange a b) e else e)"
  shows "rank_of_edges (map tw Y) = rank_of_edges Y"
  using sub
proof (induction Y rule: rev_induct)
  case Nil
  then show ?case by simp
next
  case (snoc e Y)
  then have Y: "set Y \<subseteq> set U" and e: "e \<in> set U" by auto
  have "rank_of_edges (map tw (Y @ [e])) = rank_of_edges (map tw Y @ [tw e])" by simp
  also have "\<dots> = rank_of_edges (map tw Y) +
      (if (fst (tw e), fst (snd (tw e))) \<in> conn (map tw Y) then 0 else 1)"
    by (rule rank_snoc)
  also have "\<dots> = rank_of_edges Y + (if (fst e, fst (snd e)) \<in> conn Y then 0 else 1)"
    using snoc.IH[OF Y] twist_conn[OF shared Y e tw] by simp
  also have "\<dots> = rank_of_edges (Y @ [e])" by (rule rank_snoc[symmetric])
  finally show ?case .
qed

subsection \<open>The rank does not depend on the order of the two ends of an edge\<close>

lemma conn_same_ends:
  assumes "list_all2 (\<lambda>e e'. {fst e, fst (snd e)} = {fst e', fst (snd e')}) es es'"
  shows "conn es = conn es'"
proof -
  have "edge_rel es = edge_rel es'"
    using assms
  proof (induction rule: list_all2_induct)
    case Nil
    then show ?case by simp
  next
    case (Cons e es e' es')
    have "edge_rel (e # es) = edge_rel [e] \<union> edge_rel es" "edge_rel (e' # es') = edge_rel [e'] \<union> edge_rel es'"
      using edge_rel_append[of "[e]" es] edge_rel_append[of "[e']" es'] by simp_all
    moreover have "edge_rel [e] = edge_rel [e']"
      using Cons.hyps(1) by (cases e; cases e') (auto simp: edge_rel_def doubleton_eq_iff)
    ultimately show ?case using Cons.IH by simp
  qed
  then show ?thesis by (simp add: conn_def)
qed

lemma rank_same_ends:
  assumes "list_all2 (\<lambda>e e'. {fst e, fst (snd e)} = {fst e', fst (snd e')}) es es'"
  shows "rank_of_edges es = rank_of_edges es'"
  using assms
proof (induction es arbitrary: es' rule: rev_induct)
  case Nil
  then show ?case by simp
next
  case (snoc e es)
  from snoc.prems obtain us vs where es': "es' = us @ vs"
    and all: "list_all2 (\<lambda>e e'. {fst e, fst (snd e)} = {fst e', fst (snd e')}) es us"
    and last: "list_all2 (\<lambda>e e'. {fst e, fst (snd e)} = {fst e', fst (snd e')}) [e] vs"
    by (auto simp: list_all2_append1)
  from last obtain e' where vs: "vs = [e']" and ee: "{fst e, fst (snd e)} = {fst e', fst (snd e')}"
    by (auto simp: list_all2_Cons1)
  have c: "conn es = conn us" using all by (rule conn_same_ends)
  have "(fst e, fst (snd e)) \<in> conn us \<longleftrightarrow> (fst e', fst (snd e')) \<in> conn us"
    using ee conn_sym[of _ _ us] by (auto simp: doubleton_eq_iff)
  then show ?case
    using snoc.IH[OF all] c by (simp add: rank_snoc es' vs)
qed

lemma rank_map_same_ends:
  assumes "\<And>e. e \<in> set es \<Longrightarrow> {fst (f e), fst (snd (f e))} = {fst (g e), fst (snd (g e))}"
  shows "rank_of_edges (map f es) = rank_of_edges (map g es)"
  by (rule rank_same_ends) (simp add: list_all2_map1 list_all2_map2 list_all2_same assms)

lemma norm_edge_ends: "{fst (norm_edge e), fst (snd (norm_edge e))} = {fst e, fst (snd e)}"
  by (cases e) (auto simp: norm_edge_def min_def max_def)

subsection \<open>The map built by the loop that joins the components\<close>

lemma join_components_hd:
  "hd a = hd b \<Longrightarrow> join_components (a # rest) vm = join_components (b # rest) vm"
proof (induction rest arbitrary: a b vm)
  case Nil
  then show ?case by simp
next
  case (Cons p rest)
  have h: "hd (p @ a) = hd (p @ b)" using Cons.prems by (cases p) auto
  have "join_components (a # p # rest) vm = join_components ((p @ a) # rest) (vm(hd a := last p))"
    by (rule join_components.simps(1))
  also have "\<dots> = join_components ((p @ b) # rest) (vm(hd a := last p))"
    by (rule Cons.IH[OF h])
  also have "\<dots> = join_components (b # p # rest) vm"
    unfolding Cons.prems by (rule join_components.simps(1)[symmetric])
  finally show ?case .
qed

lemma join_components_step:
  assumes "c2 \<noteq> []"
  shows "join_components (c1 # c2 # rest) vm = join_components (c2 # rest) (vm(hd c1 := last c2))"
proof -
  have "hd (c2 @ c1) = hd c2" using assms by simp
  from join_components_hd[OF this]
  have "join_components ((c2 @ c1) # rest) (vm(hd c1 := last c2))
        = join_components (c2 # rest) (vm(hd c1 := last c2))" .
  then show ?thesis by (simp only: join_components.simps(1))
qed

lemma join_components_outside:
  assumes "\<forall>c \<in> set cs. c \<noteq> []" and "\<forall>c \<in> set cs. v \<notin> set c"
  shows "join_components cs vm v = vm v"
  using assms
proof (induction cs arbitrary: vm)
  case Nil
  then show ?case by simp
next
  case (Cons c1 cs)
  show ?case
  proof (cases cs)
    case Nil
    then show ?thesis by simp
  next
    case (Cons c2 rest)
    have ne: "c2 \<noteq> []" "c1 \<noteq> []" and v: "v \<noteq> hd c1"
      and p1: "\<forall>c \<in> set cs. c \<noteq> []" and p2: "\<forall>c \<in> set cs. v \<notin> set c"
      using Cons.prems Cons by auto
    have "join_components (c1 # cs) vm v = join_components cs (vm(hd c1 := last c2)) v"
      unfolding Cons by (simp only: join_components_step[OF ne(1)])
    also have "\<dots> = (vm(hd c1 := last c2)) v"
      by (rule Cons.IH[OF p1 p2])
    also have "\<dots> = vm v" using v by simp
    finally show ?thesis .
  qed
qed

lemma join_components_range:
  assumes "\<forall>c \<in> set cs. c \<noteq> []"
  shows "join_components cs vm v = vm v \<or> join_components cs vm v \<in> \<Union> (set ` set cs)"
  using assms
proof (induction cs arbitrary: vm)
  case Nil
  then show ?case by simp
next
  case (Cons c1 cs)
  show ?case
  proof (cases cs)
    case Nil
    then show ?thesis by simp
  next
    case (Cons c2 rest)
    have ne: "c2 \<noteq> []" and p1: "\<forall>c \<in> set cs. c \<noteq> []"
      using Cons.prems Cons by auto
    define vm' where "vm' = vm(hd c1 := last c2)"
    have eq: "join_components (c1 # cs) vm v = join_components cs vm' v"
      unfolding Cons vm'_def by (simp only: join_components_step[OF ne])
    have l: "last c2 \<in> \<Union> (set ` set (c1 # cs))" using ne Cons by auto
    have sub: "\<Union> (set ` set cs) \<subseteq> \<Union> (set ` set (c1 # cs))" by auto
    have vm': "vm' v = vm v \<or> vm' v = last c2" by (simp add: vm'_def)
    from Cons.IH[OF p1, of vm'] vm' l sub show ?thesis unfolding eq by auto
  qed
qed

lemma join_components_upd:
  assumes "\<forall>c \<in> set cs. c \<noteq> []" and "\<forall>c \<in> set cs. x \<notin> set c"
  shows "join_components cs (vm(x := y)) = (join_components cs vm)(x := y)"
  using assms
proof (induction cs arbitrary: vm)
  case Nil
  then show ?case by simp
next
  case (Cons c1 cs)
  show ?case
  proof (cases cs)
    case Nil
    then show ?thesis by simp
  next
    case (Cons c2 rest)
    have ne: "c2 \<noteq> []" "c1 \<noteq> []" and x: "x \<noteq> hd c1"
      and p1: "\<forall>c \<in> set cs. c \<noteq> []" and p2: "\<forall>c \<in> set cs. x \<notin> set c"
      using Cons.prems Cons by auto
    have "join_components (c1 # cs) (vm(x := y)) = join_components cs (vm(x := y, hd c1 := last c2))"
      unfolding Cons by (simp only: join_components_step[OF ne(1)])
    also have "vm(x := y, hd c1 := last c2) = vm(hd c1 := last c2, x := y)"
      using x by (rule fun_upd_twist)
    also have "join_components cs (vm(hd c1 := last c2, x := y))
               = (join_components cs (vm(hd c1 := last c2)))(x := y)"
      by (rule Cons.IH[OF p1 p2])
    also have "join_components cs (vm(hd c1 := last c2)) = join_components (c1 # cs) vm"
      unfolding Cons by (simp only: join_components_step[OF ne(1)])
    finally show ?thesis .
  qed
qed

subsection \<open>Joining components keeps the rank\<close>

lemma map_edge_id [simp]: "map_edge (\<lambda>v. v) e = e"
  by (simp add: map_edge_def)

lemma join_rank:
  fixes U :: "label edge list"
  assumes ne: "\<forall>c \<in> set cs. c \<noteq> []"
    and dist: "distinct cs"
    and disj: "\<forall>c \<in> set cs. \<forall>c' \<in> set cs. c \<noteq> c' \<longrightarrow> set c \<inter> set c' = {}"
    and closed: "\<forall>e \<in> set U. \<forall>c \<in> set cs. fst e \<in> set c \<longleftrightarrow> fst (snd e) \<in> set c"
    and Z: "set Z \<subseteq> set U"
  shows "rank_of_edges (map (map_edge (join_components cs (\<lambda>v. v))) Z) = rank_of_edges Z"
  using ne dist disj closed
proof (induction cs)
  case Nil
  then show ?case by simp
next
  case (Cons c1 cs)
  show ?case
  proof (cases cs)
    case Nil
    then show ?thesis by simp
  next
    case (Cons c2 rest)
    let ?F' = "join_components cs (\<lambda>v. v)"
    let ?F = "join_components (c1 # cs) (\<lambda>v. v)"
    let ?h = "hd c1" and ?l = "last c2"
    have ne': "\<forall>c \<in> set cs. c \<noteq> []" and c1: "c1 \<noteq> []" and c2: "c2 \<noteq> []"
      using Cons.prems(1) Cons by auto
    have dist': "distinct cs" and c1_notin: "c1 \<notin> set cs" using Cons.prems(2) by auto
    have disj': "\<forall>c \<in> set cs. \<forall>c' \<in> set cs. c \<noteq> c' \<longrightarrow> set c \<inter> set c' = {}"
      using Cons.prems(3) by auto
    have closed': "\<forall>e \<in> set U. \<forall>c \<in> set cs. fst e \<in> set c \<longleftrightarrow> fst (snd e) \<in> set c"
      using Cons.prems(4) by auto
    have closed1: "fst e \<in> set c1 \<longleftrightarrow> fst (snd e) \<in> set c1" if "e \<in> set U" for e
      using Cons.prems(4) that by auto
    have sep: "set c1 \<inter> set c = {}" if "c \<in> set cs" for c
      using Cons.prems(3) that c1_notin by (metis list.set_intros(1) list.set_intros(2))
    have IH: "rank_of_edges (map (map_edge ?F') Z) = rank_of_edges Z"
      by (rule Cons.IH[OF ne' dist' disj' closed'])
    have h: "?h \<in> set c1" using c1 by simp
    have l: "?l \<in> set c2" "c2 \<in> set cs" using c2 Cons by simp_all
    have l_notin: "?l \<notin> set c1" using sep[OF l(2)] l(1) by auto
    have F_eq: "?F = ?F'(?h := ?l)"
    proof -
      have "?F = join_components cs ((\<lambda>v. v)(?h := ?l))"
        unfolding Cons by (simp only: join_components_step[OF c2])
      also have "\<dots> = ?F'(?h := ?l)"
        by (rule join_components_upd[OF ne']) (use sep h in auto)
      finally show ?thesis .
    qed
    have fix1: "?F' v = v" if "v \<in> set c1" for v
      by (rule join_components_outside[OF ne']) (use sep that in auto)
    have out1: "?F' v \<notin> set c1" if "v \<notin> set c1" for v
      using join_components_range[OF ne', of "\<lambda>v. v" v] that sep by auto
    define inA :: "label edge \<Rightarrow> bool" where "inA e \<longleftrightarrow> fst e \<in> set c1" for e
    define tw where "tw = (\<lambda>e. if inA e then map_edge (exchange ?h ?l) e else e)"
    let ?U' = "map (map_edge ?F') U"
    have sideA: "fst e' \<in> set c1 \<and> fst (snd e') \<in> set c1" if "e' \<in> set ?U'" "inA e'" for e'
    proof -
      from that obtain e where e: "e \<in> set U" "e' = map_edge ?F' e" by auto
      then have "fst e \<in> set c1" using that(2) out1 by (auto simp: inA_def)
      then show ?thesis using closed1[OF e(1)] fix1 e(2) by simp
    qed
    have sideB: "fst e' \<notin> set c1 \<and> fst (snd e') \<notin> set c1" if "e' \<in> set ?U'" "\<not> inA e'" for e'
    proof -
      from that obtain e where e: "e \<in> set U" "e' = map_edge ?F' e" by auto
      then have "fst e \<notin> set c1" using that(2) fix1 by (auto simp: inA_def)
      then show ?thesis using closed1[OF e(1)] out1 e(2) by simp
    qed
    have shared: "set (endpoints (filter inA ?U')) \<inter> set (endpoints (filter (\<lambda>e. \<not> inA e) ?U'))
                    \<subseteq> {?h, ?l}"
    proof -
      have "set (endpoints (filter inA ?U')) \<subseteq> set c1"
        using sideA unfolding set_endpoints by auto
      moreover have "set (endpoints (filter (\<lambda>e. \<not> inA e) ?U')) \<inter> set c1 = {}"
        using sideB unfolding set_endpoints by auto
      ultimately show ?thesis by blast
    qed
    have tw_eq: "map_edge ?F e = tw (map_edge ?F' e)" if "e \<in> set U" for e
    proof (cases "fst e \<in> set c1")
      case True
      then have both: "fst e \<in> set c1" "fst (snd e) \<in> set c1" using closed1[OF that] by auto
      have ex: "exchange ?h ?l v = (?F'(?h := ?l)) v" if "v \<in> set c1" for v
        using that fix1 l_notin by (auto simp: exchange_def)
      have "map_edge ?F' e = e" using both fix1 by (simp add: map_edge_def)
      moreover have "inA e" using True by (simp add: inA_def)
      ultimately show ?thesis using both ex by (simp add: tw_def F_eq map_edge_def)
    next
      case False
      then have both: "fst e \<notin> set c1" "fst (snd e) \<notin> set c1" using closed1[OF that] by auto
      then have "\<not> inA (map_edge ?F' e)" using out1 by (simp add: inA_def)
      moreover have "fst e \<noteq> ?h" "fst (snd e) \<noteq> ?h" using both h by auto
      ultimately show ?thesis by (simp add: tw_def F_eq map_edge_def)
    qed
    have m: "map (map_edge ?F) Z = map tw (map (map_edge ?F') Z)"
      using tw_eq Z by auto
    have "rank_of_edges (map tw (map (map_edge ?F') Z)) = rank_of_edges (map (map_edge ?F') Z)"
      by (rule twist_rank[OF shared _ tw_def]) (use Z in auto)
    then show ?thesis unfolding m IH .
  qed
qed

subsection \<open>The components listed by the graph engine\<close>

lemma roots_same_ends:
  assumes "\<And>e. fst (f e) = fst e \<and> fst (snd (f e)) = fst (snd e)"
  shows "roots (map f es) = roots es"
proof (induction es rule: rev_induct)
  case Nil
  then show ?case by simp
next
  case (snoc e es)
  show ?case by (simp add: roots_snoc snoc.IH assms cong del: if_weak_cong)
qed

lemma edge_in_conn: "e \<in> set es \<Longrightarrow> (fst e, fst (snd e)) \<in> conn es"
proof -
  assume "e \<in> set es"
  then have "(fst e, fst (snd e), snd (snd e)) \<in> set es" by simp
  then have "(fst e, fst (snd e)) \<in> edge_rel es" unfolding edge_rel_def by blast
  then show ?thesis by (simp add: conn_def)
qed

lemma root_components_of: "root (components_of g) = roots (edges g)"
  by (simp add: components_of_def root_union_edges)

lemma connected_components_as_input:
  "connected_components (as_input g) = connected_components g"
proof -
  have "roots (map (\<lambda>(u, v, l). (u, v, Some l)) (edges g)) = roots (edges g)"
    by (rule roots_same_ends) (auto simp: case_prod_unfold)
  then show ?thesis
    by (simp add: connected_components_def root_components_of as_input_def)
qed

lemma connected_components_props:
  fixes g :: "'l graph"
  assumes wf: "\<forall>e \<in> set (edges g). fst e \<in> set (vertices g) \<and> fst (snd e) \<in> set (vertices g)"
    and dv: "distinct (vertices g)"
  defines "cs \<equiv> rev (connected_components g)"
  shows "\<forall>c \<in> set cs. c \<noteq> []"
    and "distinct cs"
    and "\<forall>c \<in> set cs. \<forall>c' \<in> set cs. c \<noteq> c' \<longrightarrow> set c \<inter> set c' = {}"
    and "\<forall>e \<in> set (edges g). \<forall>c \<in> set cs. fst e \<in> set c \<longleftrightarrow> fst (snd e) \<in> set c"
proof -
  let ?r = "roots (edges g)"
  let ?vs = "vertices g"
  define cls where "cls = (\<lambda>v. filter (\<lambda>w. ?r w = ?r v) ?vs)"
  define seeds where "seeds = filter (\<lambda>v. \<forall>w \<in> set ?vs. ?r w = ?r v \<longrightarrow> v \<le> w) ?vs"
  have cc: "connected_components g = sort_key (\<lambda>c. - int (length c)) (map cls seeds)"
    by (simp add: connected_components_def root_components_of Let_def cls_def seeds_def)
  have set_cs: "set cs = cls ` set seeds" by (simp add: cs_def cc)
  have seed_in: "v \<in> set ?vs" if "v \<in> set seeds" for v using that by (simp add: seeds_def)
  have self: "v \<in> set (cls v)" if "v \<in> set seeds" for v
    using seed_in[OF that] by (simp add: cls_def)
  have mem: "w \<in> set (cls v) \<longleftrightarrow> w \<in> set ?vs \<and> ?r w = ?r v" for w v
    by (auto simp: cls_def)
  have seed_eq: "v = v'" if "v \<in> set seeds" "v' \<in> set seeds" "?r v = ?r v'" for v v'
  proof -
    have "v \<le> v'" using that seed_in[OF that(2)] by (simp add: seeds_def)
    moreover have "v' \<le> v" using that seed_in[OF that(1)] by (simp add: seeds_def)
    ultimately show ?thesis by simp
  qed
  show "\<forall>c \<in> set cs. c \<noteq> []"
  proof
    fix c assume "c \<in> set cs"
    then obtain v where "v \<in> set seeds" "c = cls v" using set_cs by auto
    then have "v \<in> set c" using self by simp
    then show "c \<noteq> []" by auto
  qed
  have inj: "inj_on cls (set seeds)"
  proof (rule inj_onI)
    fix v v' assume a: "v \<in> set seeds" "v' \<in> set seeds" "cls v = cls v'"
    then have "v \<in> set (cls v')" using self by metis
    then have "?r v = ?r v'" by (simp add: mem)
    then show "v = v'" using a seed_eq by blast
  qed
  have "distinct seeds" using dv by (simp add: seeds_def)
  then have "distinct (map cls seeds)" using inj by (simp add: distinct_map)
  then show "distinct cs" by (simp add: cs_def cc)
  show "\<forall>c \<in> set cs. \<forall>c' \<in> set cs. c \<noteq> c' \<longrightarrow> set c \<inter> set c' = {}"
  proof (intro ballI impI)
    fix c c' assume "c \<in> set cs" "c' \<in> set cs" "c \<noteq> c'"
    then obtain v v' where v: "c = cls v" "c' = cls v'" "cls v \<noteq> cls v'"
      using set_cs by auto
    then have "?r v \<noteq> ?r v'" by (auto simp: cls_def)
    then show "set c \<inter> set c' = {}" using v by (auto simp: mem)
  qed
  show "\<forall>e \<in> set (edges g). \<forall>c \<in> set cs. fst e \<in> set c \<longleftrightarrow> fst (snd e) \<in> set c"
  proof (intro ballI)
    fix e c assume e: "e \<in> set (edges g)" and "c \<in> set cs"
    then obtain v where c: "c = cls v" using set_cs by auto
    have "(fst e, fst (snd e)) \<in> conn (edges g)" using e by (rule edge_in_conn)
    then have "?r (fst e) = ?r (fst (snd e))" by (simp add: roots_conn)
    then show "fst e \<in> set c \<longleftrightarrow> fst (snd e) \<in> set c"
      using wf e by (auto simp: c mem)
  qed
qed

subsection \<open>Edges of a matroid built by the constructor\<close>

lemma edge_of_in_graph:
  assumes "valid_input g gs" and "M = GraphicMatroid_init g gs" and "y \<in> set (groundset M)"
  shows "edge_of M y \<in> set (edges (G M))" and "snd (snd (edge_of M y)) = y"
proof -
  have "y \<in> (\<lambda>e. snd (snd e)) ` set (edges (G M))"
    using assms(3) init_invariant(2)[OF assms(1,2)] by simp
  then obtain u v where uv: "(u, v, y) \<in> set (edges (G M))" by force
  then have "groundset_edge_map M y = Some (u, v)"
    using init_invariant(3)[OF assms(1,2)] by simp
  then show "edge_of M y \<in> set (edges (G M))" using uv by (simp add: edge_of_def)
  show "snd (snd (edge_of M y)) = y" by (simp add: edge_of_def)
qed

lemma edge_of_label:
  assumes "valid_input g gs" and "M = GraphicMatroid_init g gs" and "e \<in> set (edges (G M))"
  shows "edge_of M (snd (snd e)) = e"
proof -
  obtain u v l where e: "e = (u, v, l)" by (cases e) auto
  then have "groundset_edge_map M l = Some (u, v)"
    using init_invariant(3)[OF assms(1,2)] assms(3) by simp
  then show ?thesis by (simp add: edge_of_def e)
qed

lemma u_groundset_to_edges_edge_of:
  assumes "valid_input g gs" and "M = GraphicMatroid_init g gs" and "set Y \<subseteq> set (groundset M)"
  shows "u_groundset_to_edges M Y = Inr (map (edge_of M) Y)"
  using groundset_to_edges_total[OF init_lookup_defined[OF assms]]
  by (simp add: edge_of_def)

lemma groundset_to_edges_edge_of:
  assumes "valid_input g gs" and "M = GraphicMatroid_init g gs" and "set Y \<subseteq> set (groundset M)"
  shows "groundset_to_edges M Y = Inr (map (edge_of M) Y)"
  using u_groundset_to_edges_edge_of[OF assms] assms(3)
  by (auto simp: groundset_to_edges_def)

lemma u_rank_edge_of:
  assumes "valid_input g gs" and "M = GraphicMatroid_init g gs" and "set Y \<subseteq> set (groundset M)"
  shows "u_rank M Y = Inr (rank_of_edges (map (edge_of M) Y))"
  by (simp add: u_rank_def groundset_to_edges_edge_of[OF assms])

lemma norm_edge_idem [simp]: "norm_edge (norm_edge e) = norm_edge e"
  by (cases e) (simp add: norm_edge_def)

lemma Graph_edges_normal: "e \<in> set (edges (Graph es)) \<Longrightarrow> norm_edge e = e"
proof -
  assume "e \<in> set (edges (Graph es))"
  then obtain x where "e = norm_edge x" by (auto simp: Graph_def)
  then show ?thesis by simp
qed

lemma init_edges_normal:
  "e \<in> set (edges (G (GraphicMatroid_init g gs))) \<Longrightarrow> norm_edge e = e"
  by (rule Graph_edges_normal[of e]) (simp add: GraphicMatroid_init_def Let_def)

lemma set_endpoints_Union: "set (endpoints es) = (\<Union>e \<in> set es. {fst e, fst (snd e)})"
  by (auto simp: set_endpoints)

lemma endpoints_norm: "set (endpoints (map norm_edge es)) = set (endpoints es)"
  unfolding set_endpoints_Union by (simp add: norm_edge_ends)

lemma Graph_wf:
  "\<forall>e \<in> set (edges (Graph es)). fst e \<in> set (vertices (Graph es)) \<and>
      fst (snd e) \<in> set (vertices (Graph es))"
  "distinct (vertices (Graph es))"
proof -
  have "set (endpoints (edges (Graph es))) = set (vertices (Graph es))"
    using endpoints_norm[of es] by (simp add: Graph_def set_endpoints)
  then show "\<forall>e \<in> set (edges (Graph es)). fst e \<in> set (vertices (Graph es)) \<and>
      fst (snd e) \<in> set (vertices (Graph es))"
    using endpoints_memI by blast
  show "distinct (vertices (Graph es))" by (simp add: Graph_def)
qed

subsection \<open>The graph after the loop of \<open>twist\<close>\<close>

lemma step_edges:
  "edges (add_edge (delete_edge g e) e') = insort (norm_edge e') (remove1 (norm_edge e) (edges g))"
  by (cases e') (simp add: add_edge_def delete_edge_def)

lemma step_vertices:
  "set (vertices (add_edge (delete_edge g e) e')) = {fst e', fst (snd e')} \<union> set (vertices g)"
  "distinct (vertices (add_edge (delete_edge g e) e'))"
proof -
  obtain u v l where e': "e' = (u, v, l)" by (cases e') auto
  show "set (vertices (add_edge (delete_edge g e) e')) = {fst e', fst (snd e')} \<union> set (vertices g)"
    by (auto simp: e' add_edge_def delete_edge_def)
  show "distinct (vertices (add_edge (delete_edge g e) e'))"
    by (simp add: e' add_edge_def delete_edge_def)
qed

lemma twist_loop_props:
  assumes "distinct (map (\<lambda>e. snd (snd e)) (edges g))"
    and "set es \<subseteq> set (edges g)"
    and "distinct (map (\<lambda>e. snd (snd e)) es)"
    and "\<forall>e \<in> set es. norm_edge e = e"
  shows "set (edges (twist_loop es a b g)) =
           (set (edges g) - set es) \<union> (\<lambda>e. norm_edge (map_edge (exchange a b) e)) ` set es"
    and "mset (map (\<lambda>e. snd (snd e)) (edges (twist_loop es a b g)))
           = mset (map (\<lambda>e. snd (snd e)) (edges g))"
    and "set (vertices g) \<union> exchange a b ` set (endpoints es)
           = set (vertices (twist_loop es a b g))"
    and "distinct (vertices g) \<longrightarrow> distinct (vertices (twist_loop es a b g))"
  using assms
proof (induction es arbitrary: g)
  case Nil
  {
    case 1 show ?case by simp
  next
    case 2 show ?case by simp
  next
    case 3 show ?case by (simp add: endpoints_def)
  next
    case 4 show ?case by simp
  }
next
  case (Cons e es)
  let ?t = "\<lambda>e. norm_edge (map_edge (exchange a b) e)"
  let ?lab = "\<lambda>e :: label edge. snd (snd e)"
  let ?g1 = "add_edge (delete_edge g e) (map_edge (exchange a b) e)"
  {
    fix g :: "label graph"
    assume dl: "distinct (map ?lab (edges g))"
      and sub: "set (e # es) \<subseteq> set (edges g)"
      and des: "distinct (map ?lab (e # es))"
      and nrm: "\<forall>x \<in> set (e # es). norm_edge x = x"
    let ?g1 = "add_edge (delete_edge g e) (map_edge (exchange a b) e)"
    have tl: "twist_loop (e # es) a b g = twist_loop es a b ?g1"
      by (simp add: map_edge_def)
    have ne: "norm_edge e = e" using nrm by simp
    have E1: "edges ?g1 = insort (?t e) (remove1 e (edges g))"
      by (simp add: step_edges ne)
    have dE: "distinct (edges g)" using dl by (simp add: distinct_map)
    have eE: "e \<in> set (edges g)" using sub by simp
    have setE1: "set (edges ?g1) = insert (?t e) (set (edges g) - {e})"
      using dE by (simp add: E1 set_insort_key)
    have msetE1: "mset (map ?lab (edges ?g1)) = mset (map ?lab (edges g))"
    proof -
      have "mset (edges g) = add_mset e (mset (remove1 e (edges g)))"
        using eE by simp
      then have "image_mset ?lab (mset (edges g))
                 = add_mset (?lab e) (image_mset ?lab (mset (remove1 e (edges g))))"
        by (simp only: image_mset_add_mset)
      moreover have "image_mset ?lab (mset (edges ?g1))
                 = add_mset (?lab (?t e)) (image_mset ?lab (mset (remove1 e (edges g))))"
        unfolding E1 by simp
      ultimately show ?thesis by simp
    qed
    have dl1: "distinct (map ?lab (edges ?g1))"
      using mset_eq_imp_distinct_iff[OF msetE1] dl by simp
    have e_notin: "e \<notin> set es" using des by auto
    have sub1: "set es \<subseteq> set (edges ?g1)" using sub e_notin setE1 by auto
    have des1: "distinct (map ?lab es)" using des by simp
    have nrm1: "\<forall>x \<in> set es. norm_edge x = x" using nrm by simp
    have te_notin: "?t e \<notin> set es"
    proof
      assume "?t e \<in> set es"
      then have "?lab (?t e) \<in> ?lab ` set es" by (rule imageI)
      then show False using des by simp
    qed
    note tl E1 setE1 msetE1 dl1 sub1 des1 nrm1 te_notin e_notin
  } note step = this
  {
    case 1
    note s = step[OF 1]
    from Cons.IH(1)[OF s(5) s(6) s(7) s(8)] show ?case
      unfolding s(1) s(3) using s(9) s(10) by auto
  next
    case 2
    note s = step[OF 2]
    from Cons.IH(2)[OF s(5) s(6) s(7) s(8)] show ?case
      unfolding s(1) s(4) .
  next
    case 3
    note s = step[OF 3]
    have "set (endpoints (e # es)) = {fst e, fst (snd e)} \<union> set (endpoints es)"
      by (auto simp: set_endpoints)
    with Cons.IH(3)[OF s(5) s(6) s(7) s(8)] show ?case
      unfolding s(1) by (auto simp: step_vertices(1))
  next
    case 4
    note s = step[OF 4]
    from Cons.IH(4)[OF s(5) s(6) s(7) s(8)] show ?case
      unfolding s(1) by (simp add: step_vertices(2))
  }
qed

subsection \<open>The constructor on a graph with pairwise different labels\<close>

lemma those_map_Some: "those (map Some xs) = Some xs"
  by (induction xs) auto

lemma zip_relabel:
  "map (\<lambda>((u, v, l0), l). (vm u, vm v, l))
       (zip (map (\<lambda>(u, v, l). (u, v, Some l)) es) (map (\<lambda>e. snd (snd e)) es))
     = map (map_edge vm) es"
  by (induction es) (auto simp: map_edge_def)

lemma init_of_edges:
  assumes "distinct (map (\<lambda>e. snd (snd e)) (edges g'))"
  shows "edges (G (GraphicMatroid_of g')) =
           sort (map norm_edge
             (map (map_edge (join_components (rev (connected_components g')) (\<lambda>v. v))) (edges g')))"
    and "set (groundset (GraphicMatroid_of g')) = (\<lambda>e. snd (snd e)) ` set (edges g')"
proof -
  let ?ls = "map (\<lambda>e. snd (snd e)) (edges g')"
  have el: "edge_labels (as_input g') = map Some ?ls"
    by (simp add: edge_labels_def as_input_def case_prod_unfold comp_def)
  have ne: "num_edges (as_input g') = length ?ls"
    by (simp add: num_edges_def as_input_def)
  have ig: "init_groundset (as_input g') None = ?ls"
    unfolding init_groundset_def Let_def option.case el those_map_Some ne
    using assms by (simp add: distinct_remdups_id)
  have ei: "edges (as_input g') = map (\<lambda>(u, v, l). (u, v, Some l)) (edges g')"
    by (simp add: as_input_def)
  show "edges (G (GraphicMatroid_of g')) =
           sort (map norm_edge
             (map (map_edge (join_components (rev (connected_components g')) (\<lambda>v. v))) (edges g')))"
    unfolding GraphicMatroid_of_def GraphicMatroid_init_def Let_def ig ei
      connected_components_as_input zip_relabel
    by (simp add: Graph_def)
  show "set (groundset (GraphicMatroid_of g')) = (\<lambda>e. snd (snd e)) ` set (edges g')"
    unfolding GraphicMatroid_of_def GraphicMatroid_init_def Let_def ig
    by (simp add: py_frozenset_def)
qed

lemma length_two_set: "length xs = 2 \<Longrightarrow> set xs = {xs ! 0, xs ! 1}"
proof -
  assume "length xs = 2"
  then obtain x y where "xs = [x, y]"
    by (metis (no_types, opaque_lifting) One_nat_def Suc_1 length_0_conv length_Suc_conv)
  then show ?thesis by auto
qed

lemma set_py_frozenset [simp]: "set (py_frozenset xs) = set xs"
  by (simp add: py_frozenset_def)

lemma valid_as_input: "valid_input (as_input g') None"
  by (simp add: valid_input_def)

lemma endpoints_set_cong: "set xs = set ys \<Longrightarrow> set (endpoints xs) = set (endpoints ys)"
  by (simp add: set_endpoints)

lemma twist_Inr:
  assumes "twist M X = Inr N"
  shows "\<exists>X_edges Y_edges.
           set X \<subseteq> set (groundset M) \<and> connectivity M X = Inr 1 \<and>
           groundset_to_edges M X = Inr X_edges \<and>
           groundset_to_edges M (filter (\<lambda>x. x \<notin> set X) (groundset M)) = Inr Y_edges \<and>
           (let shared = filter (\<lambda>x. x \<in> set (py_frozenset (endpoints Y_edges)))
                           (py_frozenset (endpoints X_edges))
            in length shared = 2 \<and>
               N = GraphicMatroid_of
                     (twist_loop (filter (\<lambda>(u, v, l). u \<in> set shared \<or> v \<in> set shared) X_edges)
                        (shared ! 0) (shared ! 1) (graph M)))"
  using assms unfolding twist_def Let_def
  by (auto split: if_splits sum.splits)

text \<open>
  Claim C2. For a matroid \<open>M\<close> built by the constructor and a set \<open>X\<close> on which
  \<open>twist(X)\<close> succeeds, the result \<open>N\<close> has the rank of \<open>M\<close> on every \<open>Y\<close> inside the
  ground set: both ranks are defined and equal.
\<close>

theorem twist_preserves_rank:
  assumes vi: "valid_input g gs" and M: "M = GraphicMatroid_init g gs"
    and dX: "distinct X" and tw: "twist M X = Inr N"
    and Y: "set Y \<subseteq> set (groundset M)"
  shows "\<exists>r. u_rank M Y = Inr r \<and> u_rank N Y = Inr r"
proof -
  let ?lab = "\<lambda>e :: label edge. snd (snd e)"
  let ?E = "edges (G M)"
  let ?Yc = "filter (\<lambda>x. x \<notin> set X) (groundset M)"
  let ?XE = "map (edge_of M) X" and ?YE = "map (edge_of M) ?Yc"
  define shared where
    "shared = filter (\<lambda>x. x \<in> set (py_frozenset (endpoints ?YE))) (py_frozenset (endpoints ?XE))"
  define a where "a = shared ! 0"
  define b where "b = shared ! 1"
  define es where "es = filter (\<lambda>(u, v, l). u \<in> set shared \<or> v \<in> set shared) ?XE"
  define G' where "G' = twist_loop es a b (graph M)"
  let ?f = "exchange a b"
  let ?t = "\<lambda>e. norm_edge (map_edge ?f e)"
  from tw have X: "set X \<subseteq> set (groundset M)"
    by (auto simp: twist_def split: if_splits)
  have Yc: "set ?Yc \<subseteq> set (groundset M)" by auto
  have Xe: "groundset_to_edges M X = Inr ?XE" by (rule groundset_to_edges_edge_of[OF vi M X])
  have Ye: "groundset_to_edges M ?Yc = Inr ?YE" by (rule groundset_to_edges_edge_of[OF vi M Yc])
  from twist_Inr[OF tw] Xe Ye have len: "length shared = 2" and N: "N = GraphicMatroid_of G'"
    unfolding Let_def shared_def a_def b_def es_def G'_def by auto
  have sh: "set shared = {a, b}" using length_two_set[OF len] by (simp add: a_def b_def)
  have sh_eq: "set shared = set (endpoints ?XE) \<inter> set (endpoints ?YE)"
    by (auto simp: shared_def)

  text \<open>The two sides of the separation inside the edge list of \<open>M\<close>.\<close>
  define inA where "inA = (\<lambda>e :: label edge. ?lab e \<in> set X)"
  have eo_in: "edge_of M y \<in> set ?E" and eo_lab: "?lab (edge_of M y) = y"
    if "y \<in> set (groundset M)" for y
    using edge_of_in_graph[OF vi M that] by simp_all
  have eo_back: "edge_of M (?lab e) = e" if "e \<in> set ?E" for e
    by (rule edge_of_label[OF vi M that])
  have labE: "?lab e \<in> set (groundset M)" if "e \<in> set ?E" for e
    using init_invariant(2)[OF vi M] that by auto
  have S1: "set (filter inA ?E) = set ?XE"
  proof
    show "set (filter inA ?E) \<subseteq> set ?XE"
      using eo_back by (force simp: inA_def)
    show "set ?XE \<subseteq> set (filter inA ?E)"
      using eo_in eo_lab X by (auto simp: inA_def)
  qed
  have S2: "set (filter (\<lambda>e. \<not> inA e) ?E) = set ?YE"
  proof
    show "set (filter (\<lambda>e. \<not> inA e) ?E) \<subseteq> set ?YE"
    proof
      fix e assume "e \<in> set (filter (\<lambda>e. \<not> inA e) ?E)"
      then have e: "e \<in> set ?E" "?lab e \<notin> set X" by (auto simp: inA_def)
      then have "?lab e \<in> set ?Yc" using labE by simp
      then have "edge_of M (?lab e) \<in> set ?YE" unfolding set_map by (rule imageI)
      then show "e \<in> set ?YE" using eo_back[OF e(1)] by simp
    qed
    show "set ?YE \<subseteq> set (filter (\<lambda>e. \<not> inA e) ?E)"
      using eo_in eo_lab by (auto simp: inA_def)
  qed
  have shared_tw:
    "set (endpoints (filter inA ?E)) \<inter> set (endpoints (filter (\<lambda>e. \<not> inA e) ?E)) \<subseteq> {a, b}"
    using endpoints_set_cong[OF S1] endpoints_set_cong[OF S2] sh sh_eq by simp

  text \<open>The graph after the loop.\<close>
  have dl: "distinct (map ?lab ?E)" by (rule init_invariant(1)[OF vi M])
  have es_sub_X: "set es \<subseteq> set ?XE" by (auto simp: es_def)
  have es_sub: "set es \<subseteq> set ?E" using es_sub_X S1 by auto
  have "map ?lab ?XE = X" by (simp add: edge_of_def comp_def)
  then have "distinct (map ?lab ?XE)" using dX by simp
  then have des: "distinct (map ?lab es)" unfolding es_def by (rule distinct_map_filter)
  have nrm: "\<forall>e \<in> set es. norm_edge e = e"
    using es_sub init_edges_normal[of _ g gs] M by auto
  note tl = twist_loop_props[OF dl es_sub des nrm, of a b, unfolded graph_def[symmetric],
      folded G'_def]
  have setG': "set (edges G') = (set ?E - set es) \<union> ?t ` set es"
    using tl(1) by (simp add: G'_def graph_def)
  have labG': "mset (map ?lab (edges G')) = mset (map ?lab ?E)"
    using tl(2) by (simp add: G'_def graph_def)
  have vertG': "set (vertices (G M)) \<union> ?f ` set (endpoints es) = set (vertices G')"
    using tl(3) by (simp add: G'_def graph_def)
  have GM: "G M = Graph (map (\<lambda>((u, v, l0), l).
        (join_components (rev (connected_components g)) (\<lambda>v. v) u,
         join_components (rev (connected_components g)) (\<lambda>v. v) v, l))
        (zip (edges g) (init_groundset g gs)))"
    by (simp add: M GraphicMatroid_init_def Let_def)
  have wfM: "\<forall>e \<in> set ?E. fst e \<in> set (vertices (G M)) \<and> fst (snd e) \<in> set (vertices (G M))"
    and dvM: "distinct (vertices (G M))"
    unfolding GM by (rule Graph_wf)+
  have dvG': "distinct (vertices G')" using tl(4) dvM by (simp add: G'_def graph_def)
  have dlG': "distinct (map ?lab (edges G'))"
    using mset_eq_imp_distinct_iff[OF labG'] dl by simp
  have wfG': "\<forall>e \<in> set (edges G'). fst e \<in> set (vertices G') \<and> fst (snd e) \<in> set (vertices G')"
  proof
    fix e assume "e \<in> set (edges G')"
    then consider "e \<in> set ?E" | e0 where "e0 \<in> set es" "e = ?t e0"
      using setG' by auto
    then show "fst e \<in> set (vertices G') \<and> fst (snd e) \<in> set (vertices G')"
    proof cases
      case 1
      then show ?thesis using wfM vertG' by auto
    next
      case 2
      have "{fst e, fst (snd e)} = {?f (fst e0), ?f (fst (snd e0))}"
        unfolding 2(2) using norm_edge_ends[of "map_edge ?f e0"] by simp
      moreover have "?f (fst e0) \<in> set (vertices G')" "?f (fst (snd e0)) \<in> set (vertices G')"
        using endpoints_memI[OF 2(1)] vertG' by auto
      ultimately show ?thesis by (auto simp: doubleton_eq_iff)
    qed
  qed

  text \<open>The matroid built from it.\<close>
  define vm where "vm = join_components (rev (connected_components G')) (\<lambda>v. v)"
  have edgesN: "edges (G N) = sort (map norm_edge (map (map_edge vm) (edges G')))"
    unfolding N vm_def by (rule init_of_edges(1)[OF dlG'])
  have gsN: "set (groundset N) = set (groundset M)"
  proof -
    have "set (groundset N) = ?lab ` set (edges G')"
      unfolding N by (rule init_of_edges(2)[OF dlG'])
    also have "\<dots> = set (map ?lab (edges G'))" by simp
    also have "\<dots> = set (map ?lab ?E)" using labG' by (metis set_mset_mset)
    also have "\<dots> = set (groundset M)" using init_invariant(2)[OF vi M] by simp
    finally show ?thesis .
  qed
  have N_init: "N = GraphicMatroid_init (as_input G') None"
    by (simp add: N GraphicMatroid_of_def)
  have YN: "set Y \<subseteq> set (groundset N)" using Y gsN by simp
  have rankM: "u_rank M Y = Inr (rank_of_edges (map (edge_of M) Y))"
    by (rule u_rank_edge_of[OF vi M Y])
  have rankN: "u_rank N Y = Inr (rank_of_edges (map (edge_of N) Y))"
    by (rule u_rank_edge_of[OF valid_as_input N_init YN])

  define e' where "e' = (\<lambda>y. if edge_of M y \<in> set es then ?t (edge_of M y) else edge_of M y)"
  define twf where "twf = (\<lambda>e. if inA e then map_edge ?f e else e)"
  have e'_in: "e' y \<in> set (edges G')" and e'_lab: "?lab (e' y) = y" if "y \<in> set Y" for y
  proof -
    have y: "y \<in> set (groundset M)" using that Y by auto
    show "e' y \<in> set (edges G')" using eo_in[OF y] by (auto simp: e'_def setG')
    show "?lab (e' y) = y" using eo_lab[OF y] by (simp add: e'_def)
  qed
  have eoN: "edge_of N y = norm_edge (map_edge vm (e' y))" if "y \<in> set Y" for y
  proof -
    have "norm_edge (map_edge vm (e' y)) \<in> set (edges (G N))"
      using e'_in[OF that] by (simp add: edgesN)
    from edge_of_label[OF valid_as_input N_init this] show ?thesis
      using e'_lab[OF that] by simp
  qed
  have "map (edge_of N) Y = map (\<lambda>y. norm_edge (map_edge vm (e' y))) Y"
    using eoN by simp
  then have "rank_of_edges (map (edge_of N) Y)
             = rank_of_edges (map (\<lambda>y. norm_edge (map_edge vm (e' y))) Y)" by (rule arg_cong)
  also have "\<dots> = rank_of_edges (map (\<lambda>y. map_edge vm (e' y)) Y)"
    by (rule rank_map_same_ends) (rule norm_edge_ends)
  also have "\<dots> = rank_of_edges (map (map_edge vm) (map e' Y))"
    by (simp add: comp_def)
  also have "\<dots> = rank_of_edges (map e' Y)"
    unfolding vm_def
    by (rule join_rank[OF connected_components_props[OF wfG' dvG']])
       (use e'_in in auto)
  also have "\<dots> = rank_of_edges (map (\<lambda>y. twf (edge_of M y)) Y)"
  proof (rule rank_map_same_ends)
    fix y assume yY: "y \<in> set Y"
    then have y: "y \<in> set (groundset M)" using Y by auto
    let ?e0 = "edge_of M y"
    show "{fst (e' y), fst (snd (e' y))} = {fst (twf ?e0), fst (snd (twf ?e0))}"
    proof (cases "?e0 \<in> set es")
      case True
      then have "inA ?e0" using es_sub_X S1 by auto
      then show ?thesis
        using True norm_edge_ends[of "map_edge ?f ?e0"] by (simp add: e'_def twf_def)
    next
      case False
      show ?thesis
      proof (cases "inA ?e0")
        case F2: False
        then show ?thesis using False by (simp add: e'_def twf_def)
      next
        case True
        then have "?e0 \<in> set ?XE" using eo_in[OF y] S1 by auto
        then have "\<not> (fst ?e0 \<in> set shared \<or> fst (snd ?e0) \<in> set shared)"
          using False by (auto simp: es_def)
        then have "map_edge ?f ?e0 = ?e0"
          using sh by (simp add: map_edge_def exchange_def)
        then show ?thesis using False True by (simp add: e'_def twf_def)
      qed
    qed
  qed
  also have "\<dots> = rank_of_edges (map twf (map (edge_of M) Y))"
    by (simp add: comp_def)
  also have "\<dots> = rank_of_edges (map (edge_of M) Y)"
    by (rule twist_rank[OF shared_tw _ twf_def]) (use eo_in Y in auto)
  finally show ?thesis using rankM rankN by simp
qed

theorem twist_preserves_rank_witness:
  "valid_input twist_example None \<and> distinct [0 :: label, 1, 2] \<and>
   set [1, 2, 3] \<subseteq> set (groundset (GraphicMatroid_init twist_example None)) \<and>
   (\<exists>N r. twist (GraphicMatroid_init twist_example None) [0, 1, 2] = Inr N \<and>
          u_rank (GraphicMatroid_init twist_example None) [1, 2, 3] = Inr r \<and>
          u_rank N [1, 2, 3] = Inr r)"
proof -
  let ?M = "GraphicMatroid_init twist_example None"
  have h1: "valid_input twist_example None" by (simp add: valid_input_def)
  have h3: "distinct [0 :: label, 1, 2]" by simp
  have h5: "set [1, 2, 3] \<subseteq> set (groundset ?M)" by code_simp
  have "(case twist ?M [0, 1, 2] of Inl e \<Rightarrow> False | Inr N \<Rightarrow> True)" by code_simp
  then obtain N where h4: "twist ?M [0, 1, 2] = Inr N" by (auto split: sum.splits)
  from twist_preserves_rank[OF h1 refl h3 h4 h5] h1 h3 h4 h5 show ?thesis by blast
qed

subsection \<open>Bounds of the rank\<close>

lemma rank_Nil: "rank_of_edges [] = 0"
  by (simp add: rank_of_edges_card endpoints_def)

lemma rank_nonneg: "0 \<le> rank_of_edges es"
  by (induction es rule: rev_induct) (simp_all add: rank_snoc rank_Nil)

lemma rank_le_length: "rank_of_edges es \<le> int (length es)"
  by (induction es rule: rev_induct) (simp_all add: rank_snoc rank_Nil)

lemma rank_subset_bounds:
  assumes "valid_input g gs" and "M = GraphicMatroid_init g gs" and "set X \<subseteq> set (groundset M)"
  shows "\<exists>r. u_rank M X = Inr r \<and> 0 \<le> r \<and> r \<le> int (length X)"
  using rank_le_length[of "map (edge_of M) X"] rank_nonneg[of "map (edge_of M) X"]
  by (simp add: u_rank_edge_of[OF assms])

lemma rank_empty: "u_rank M [] = Inr 0"
  by (simp add: u_rank_def groundset_to_edges_def rank_Nil)

section \<open>Operations and the store\<close>

subsection \<open>Objects made before a call are not changed\<close>

lemma unchanged_refl: "unchanged s s"
  by (simp add: unchanged_def)

lemma unchanged_alloc_graph:
  assumes "unchanged s0 s" and "alloc_graph g s = (r, s')"
  shows "unchanged s0 s'" and "next_ref s0 \<le> r" and "graph_at s' r = g"
  using assms by (auto simp add: unchanged_def alloc_graph_def graph_at_def)

lemma unchanged_alloc_matroid:
  assumes "unchanged s0 s" and "alloc_matroid obj s = (r, s')"
  shows "unchanged s0 s'" and "next_ref s0 \<le> r" and "matroid_objects s' r = Some obj"
  using assms by (auto simp add: unchanged_def alloc_matroid_def)

lemma unchanged_st_update:
  assumes "unchanged s0 s" and "next_ref s0 \<le> r"
  shows "unchanged s0 (st_update r f s)"
  using assms by (auto simp add: unchanged_def st_update_def)

lemma unchanged_st_graph:
  assumes "unchanged s0 s" and "st_graph obj s = (r, s')"
  shows "unchanged s0 s'" and "next_ref s0 \<le> r"
  using assms unchanged_alloc_graph unfolding st_graph_def by blast+

lemma unchanged_st_init:
  assumes u: "unchanged s0 s" and i: "st_init r s = (m, s')"
  shows "unchanged s0 s'" and "fresh_instance s0 s' m"
proof -
  obtain rg s1 where a: "alloc_graph (G (GraphicMatroid_of (graph_at s r))) s = (rg, s1)"
    by (cases "alloc_graph (G (GraphicMatroid_of (graph_at s r))) s")
  let ?obj = "\<lparr> o_groundset = groundset (GraphicMatroid_of (graph_at s r)),
                 o_vertex_map = vertex_map (GraphicMatroid_of (graph_at s r)), o_G = rg,
                 o_groundset_edge_map = groundset_edge_map (GraphicMatroid_of (graph_at s r)) \<rparr>"
  have b: "alloc_matroid ?obj s1 = (m, s')"
    using i a by (simp add: st_init_def Let_def)
  note u1 = unchanged_alloc_graph[OF u a]
  note u2 = unchanged_alloc_matroid[OF u1(1) b]
  show "unchanged s0 s'" by (rule u2(1))
  show "fresh_instance s0 s' m"
    unfolding fresh_instance_def using u2(2,3) u1(2) by auto
qed

lemma unchanged_st_closure_loop:
  assumes "unchanged s0 s" and "next_ref s0 \<le> g"
  shows "unchanged s0 (snd (st_closure_loop g es V c X s))"
  using assms
proof (induction es arbitrary: X s)
  case Nil
  then show ?case by simp
next
  case (Cons e es)
  then show ?case
    by (simp add: Let_def unchanged_st_update)
qed

lemma unchanged_st_twist_loop:
  assumes "unchanged s0 s" and "next_ref s0 \<le> g"
  shows "unchanged s0 (st_twist_loop g es a b s)"
  using assms
proof (induction es arbitrary: s)
  case Nil
  then show ?case by simp
next
  case (Cons e es)
  then show ?case
    by (simp add: unchanged_st_update)
qed

lemma unchanged_receiver:
  assumes "unchanged s s'" and "matroid_objects s self = Some obj"
    and "self < next_ref s" and "o_G obj < next_ref s"
  shows "matroid_objects s' self = Some obj" and "matroid_value s' obj = matroid_value s obj"
  using assms by (auto simp add: unchanged_def matroid_value_def graph_at_def)

lemma st_rank_frame: "snd (st_rank self X s) = s"
  by (simp add: st_rank_def split: option.splits)

lemma st_closure_frame: "unchanged s (snd (st_closure self X s))"
proof (cases "matroid_objects s self")
  case None
  then show ?thesis by (simp add: st_closure_def unchanged_refl)
next
  case (Some obj)
  show ?thesis
  proof -
    { fix es edgelist
      obtain g s1 where a: "alloc_graph (Graph es) s = (g, s1)"
        by (cases "alloc_graph (Graph es) s")
      note u1 = unchanged_alloc_graph[OF unchanged_refl a]
      have "unchanged s (snd (st_closure_loop g edgelist (vertices (graph_at s1 g))
               (connected_components_number (graph_at s1 g)) (remdups X) s1))"
        by (rule unchanged_st_closure_loop[OF u1(1) u1(2)])
      with a have "unchanged s (snd (let (g, s1) = alloc_graph (Graph es) s;
                            V = vertices (graph_at s1 g);
                            components = connected_components_number (graph_at s1 g);
                            (X'', s2) = st_closure_loop g edgelist V components (remdups X) s1
                        in (Inr (py_frozenset
                                   (X'' @ map (\<lambda>(u, v, l). l) (loops (graph_at s2 (o_G obj))))),
                            s2)))"
        by (simp add: Let_def split_def) }
    then show ?thesis
      using Some by (auto simp add: st_closure_def Let_def unchanged_refl split: sum.splits)
  qed
qed

lemma st_minor_frame:
  "unchanged s (snd (st_minor contract_edges self contractions deletions s))"
  "fst (st_minor contract_edges self contractions deletions s) = Inr m \<Longrightarrow>
     fresh_instance s (snd (st_minor contract_edges self contractions deletions s)) m"
proof -
  let ?out = "st_minor contract_edges self contractions deletions s"
  have "unchanged s (snd ?out) \<and> (fst ?out = Inr m \<longrightarrow> fresh_instance s (snd ?out) m)"
  proof (cases "matroid_objects s self")
    case None
    then show ?thesis by (simp add: st_minor_def unchanged_refl)
  next
    case (Some obj)
    obtain g s1 where a: "st_graph obj s = (g, s1)"
      by (cases "st_graph obj s")
    note u1 = unchanged_st_graph[OF unchanged_refl a]
    show ?thesis
    proof (cases "u_groundset_to_edges (matroid_value s1 obj) contractions")
      case (Inl e)
      then show ?thesis using Some a u1 by (simp add: st_minor_def)
    next
      case (Inr cont_edges)
      note ce = Inr
      show ?thesis
      proof (cases "u_groundset_to_edges (matroid_value s1 obj) deletions")
        case (Inl e)
        then show ?thesis using Some a u1 ce by (simp add: st_minor_def)
      next
        case (Inr del_edges)
        let ?s3 = "st_update g (\<lambda>h. contract_edges h cont_edges)
                     (st_update g (\<lambda>h. delete_edges h del_edges) s1)"
        obtain m' s4 where i: "st_init g ?s3 = (m', s4)"
          by (cases "st_init g ?s3")
        have u3: "unchanged s ?s3"
          by (intro unchanged_st_update u1)
        note u4 = unchanged_st_init[OF u3 i]
        have "?out = (Inr m', s4)"
          using Some a ce Inr i by (simp add: st_minor_def Let_def)
        then show ?thesis using u4 by auto
      qed
    qed
  qed
  then show "unchanged s (snd ?out)"
    and "fst ?out = Inr m \<Longrightarrow> fresh_instance s (snd ?out) m"
    by blast+
qed

lemma st_graphic_extension_frame:
  "unchanged s (snd (st_graphic_extension self u v element s))"
  "fst (st_graphic_extension self u v element s) = Inr m \<Longrightarrow>
     fresh_instance s (snd (st_graphic_extension self u v element s)) m"
proof -
  let ?out = "st_graphic_extension self u v element s"
  have "unchanged s (snd ?out) \<and> (fst ?out = Inr m \<longrightarrow> fresh_instance s (snd ?out) m)"
  proof (cases "matroid_objects s self")
    case None
    then show ?thesis by (simp add: st_graphic_extension_def unchanged_refl)
  next
    case (Some obj)
    show ?thesis
    proof (cases "element \<noteq> None \<and> the element \<in> set (groundset (matroid_value s obj))")
      case True
      then show ?thesis using Some by (simp add: st_graphic_extension_def unchanged_refl)
    next
      case False
      obtain g s1 where a: "st_graph obj s = (g, s1)"
        by (cases "st_graph obj s")
      note u1 = unchanged_st_graph[OF unchanged_refl a]
      define e where "e = (u, (case v of None \<Rightarrow> u | Some w \<Rightarrow> w),
         (case element of None \<Rightarrow> newlabel (groundset (matroid_value s obj)) | Some x \<Rightarrow> x))"
      let ?s2 = "st_update g (\<lambda>h. add_edge h e) s1"
      obtain m' s3 where i: "st_init g ?s2 = (m', s3)"
        by (cases "st_init g ?s2")
      have u2: "unchanged s ?s2"
        by (intro unchanged_st_update u1)
      note u3 = unchanged_st_init[OF u2 i]
      have "?out = (Inr m', s3)"
        using Some a False i unfolding e_def by (simp add: st_graphic_extension_def Let_def)
      then show ?thesis using u3 by auto
    qed
  qed
  then show "unchanged s (snd ?out)"
    and "fst ?out = Inr m \<Longrightarrow> fresh_instance s (snd ?out) m"
    by blast+
qed

lemma st_twist_disj:
  assumes "matroid_objects s self = Some obj"
  shows "(\<exists>e. st_twist self X s = (Inl e, s)) \<or>
    (\<exists>e g0 s1. st_graph obj s = (g0, s1) \<and> st_twist self X s = (Inl e, s1)) \<or>
    (\<exists>g0 s1 es a b g s2 m s4. st_graph obj s = (g0, s1) \<and> st_graph obj s1 = (g, s2)
      \<and> st_init g (st_twist_loop g es a b s2) = (m, s4) \<and> st_twist self X s = (Inr m, s4))"
  using assms unfolding st_twist_def Let_def
  by (simp split: sum.split prod.split) blast

lemma st_twist_cases:
  assumes "matroid_objects s self = Some obj"
  obtains (err) e where "st_twist self X s = (Inl e, s)"
  | (err1) e g0 s1 where "st_graph obj s = (g0, s1)" and "st_twist self X s = (Inl e, s1)"
  | (ok) g0 s1 es a b g s2 m s4 where "st_graph obj s = (g0, s1)" and "st_graph obj s1 = (g, s2)"
      and "st_init g (st_twist_loop g es a b s2) = (m, s4)" and "st_twist self X s = (Inr m, s4)"
  using st_twist_disj[OF assms, of X] by blast

lemma st_twist_frame:
  "unchanged s (snd (st_twist self X s))"
  "fst (st_twist self X s) = Inr m \<Longrightarrow> fresh_instance s (snd (st_twist self X s)) m"
proof -
  let ?out = "st_twist self X s"
  have "unchanged s (snd ?out) \<and> (fst ?out = Inr m \<longrightarrow> fresh_instance s (snd ?out) m)"
  proof (cases "matroid_objects s self")
    case None
    then show ?thesis by (simp add: st_twist_def unchanged_refl)
  next
    case (Some obj)
    from Some show ?thesis
    proof (cases rule: st_twist_cases[where X = X])
      case (err e)
      then show ?thesis by (simp add: unchanged_refl)
    next
      case (err1 e g0 s1)
      then show ?thesis using unchanged_st_graph(1)[OF unchanged_refl err1(1)] by simp
    next
      case (ok g0 s1 es a b g s2 m' s4)
      note u1 = unchanged_st_graph[OF unchanged_refl ok(1)]
      note u2 = unchanged_st_graph[OF u1(1) ok(2)]
      note u3 = unchanged_st_twist_loop[OF u2(1) u2(2)]
      note u4 = unchanged_st_init[OF u3 ok(3)]
      show ?thesis using u4 ok(4) by auto
    qed
  qed
  then show "unchanged s (snd ?out)"
    and "fst ?out = Inr m \<Longrightarrow> fresh_instance s (snd ?out) m"
    by blast+
qed

lemma st_one_sum_disj:
  assumes "matroid_objects s self = Some obj"
  shows "(\<exists>e. st_one_sum split_vertex merge_vertices self X u v s = (Inl e, s)) \<or>
    (\<exists>e g s1. st_graph obj s = (g, s1)
       \<and> st_one_sum split_vertex merge_vertices self X u v s = (Inl e, s1)) \<or>
    (\<exists>g s1 f1 f2 m s5. st_graph obj s = (g, s1)
      \<and> st_init g (st_update g f2 (st_update g f1 (st_update g add_vertex s1))) = (m, s5)
      \<and> st_one_sum split_vertex merge_vertices self X u v s = (Inr m, s5))"
  using assms unfolding st_one_sum_def Let_def
  by (simp split: sum.split prod.split) blast

lemma st_one_sum_cases:
  assumes "matroid_objects s self = Some obj"
  obtains (err) e where "st_one_sum split_vertex merge_vertices self X u v s = (Inl e, s)"
  | (err1) e g s1 where "st_graph obj s = (g, s1)"
      and "st_one_sum split_vertex merge_vertices self X u v s = (Inl e, s1)"
  | (ok) g s1 f1 f2 m s5 where "st_graph obj s = (g, s1)"
      and "st_init g (st_update g f2 (st_update g f1 (st_update g add_vertex s1))) = (m, s5)"
      and "st_one_sum split_vertex merge_vertices self X u v s = (Inr m, s5)"
  using st_one_sum_disj[OF assms, of split_vertex merge_vertices X u v] by blast

lemma st_one_sum_frame:
  "unchanged s (snd (st_one_sum split_vertex merge_vertices self X u v s))"
  "fst (st_one_sum split_vertex merge_vertices self X u v s) = Inr m \<Longrightarrow>
     fresh_instance s (snd (st_one_sum split_vertex merge_vertices self X u v s)) m"
proof -
  let ?out = "st_one_sum split_vertex merge_vertices self X u v s"
  have "unchanged s (snd ?out) \<and> (fst ?out = Inr m \<longrightarrow> fresh_instance s (snd ?out) m)"
  proof (cases "matroid_objects s self")
    case None
    then show ?thesis by (simp add: st_one_sum_def unchanged_refl)
  next
    case (Some obj)
    from Some show ?thesis
    proof (cases rule: st_one_sum_cases[where X = X and u = u and v = v
             and split_vertex = split_vertex and merge_vertices = merge_vertices])
      case (err e)
      then show ?thesis by (simp add: unchanged_refl)
    next
      case (err1 e g s1)
      then show ?thesis using unchanged_st_graph(1)[OF unchanged_refl err1(1)] by simp
    next
      case (ok g s1 f1 f2 m' s5)
      note u1 = unchanged_st_graph[OF unchanged_refl ok(1)]
      have u2: "unchanged s (st_update g f2 (st_update g f1 (st_update g add_vertex s1)))"
        by (intro unchanged_st_update u1)
      note u4 = unchanged_st_init[OF u2 ok(2)]
      show ?thesis using u4 ok(3) by auto
    qed
  qed
  then show "unchanged s (snd ?out)"
    and "fst ?out = Inr m \<Longrightarrow> fresh_instance s (snd ?out) m"
    by blast+
qed

subsection \<open>The operations on the store compute what the operations on values compute\<close>

lemma graph_at_st_update:
  "graph_at (st_update r f s) r' = (if r' = r then f (graph_at s r) else graph_at s r')"
  by (simp add: graph_at_def st_update_def)

lemma matroid_value_st_update:
  "o_G obj \<noteq> r \<Longrightarrow> matroid_value (st_update r f s) obj = matroid_value s obj"
  by (simp add: matroid_value_def graph_at_st_update)

lemma G_matroid_value: "G (matroid_value s obj) = graph_at s (o_G obj)"
  by (simp add: matroid_value_def)

lemma graph_at_alloc_graph:
  assumes "alloc_graph g s = (r, s')"
  shows "r = next_ref s" and "graph_at s' r' = (if r' = r then g else graph_at s r')"
  using assms by (auto simp add: alloc_graph_def graph_at_def)

lemma st_closure_loop_refines:
  "fst (st_closure_loop g es V c X s) = closure_loop es V c (graph_at s g) X"
proof (induction es arbitrary: X s)
  case Nil
  then show ?case by simp
next
  case (Cons e es)
  then show ?case
    by (simp add: Let_def graph_at_st_update)
qed

lemma st_closure_loop_other:
  "r \<noteq> g \<Longrightarrow> graph_at (snd (st_closure_loop g es V c X s)) r = graph_at s r"
proof (induction es arbitrary: X s)
  case Nil
  then show ?case by simp
next
  case (Cons e es)
  then show ?case
    by (simp add: Let_def graph_at_st_update)
qed

lemma st_twist_loop_refines:
  "graph_at (st_twist_loop g es a b s) g = twist_loop es a b (graph_at s g)"
proof (induction es arbitrary: s)
  case Nil
  then show ?case by simp
next
  case (Cons e es)
  then show ?case
    by (simp add: graph_at_st_update)
qed

lemma st_init_value:
  assumes "st_init r s = (m, s')"
  shows "result_value s' (Inr m) = Inr (GraphicMatroid_of (graph_at s r))"
  using assms
  by (auto simp add: st_init_def Let_def alloc_graph_def alloc_matroid_def result_value_def
      matroid_value_def graph_at_def)

lemma st_rank_refines:
  "matroid_objects s self = Some obj \<Longrightarrow> fst (st_rank self X s) = u_rank (matroid_value s obj) X"
  by (simp add: st_rank_def)

lemma st_closure_refines:
  assumes obj: "matroid_objects s self = Some obj" and lt: "o_G obj < next_ref s"
  shows "fst (st_closure self X s) = u_closure (matroid_value s obj) X"
proof -
  { fix es edgelist
    obtain g s1 where a: "alloc_graph (Graph es) s = (g, s1)"
      by (cases "alloc_graph (Graph es) s")
    note g = graph_at_alloc_graph[OF a]
    have ne: "o_G obj \<noteq> g" using lt g(1) by simp
    have g1: "graph_at s1 g = Graph es" using g(2) by simp
    have "graph_at (snd (st_closure_loop g edgelist (vertices (Graph es))
             (connected_components_number (Graph es)) (remdups X) s1)) (o_G obj)
          = graph_at s (o_G obj)"
      using st_closure_loop_other[OF ne] g(2) ne by simp
    then have "fst (let (g, s1) = alloc_graph (Graph es) s;
                            V = vertices (graph_at s1 g);
                            components = connected_components_number (graph_at s1 g);
                            (X'', s2) = st_closure_loop g edgelist V components (remdups X) s1
                        in (Inr (py_frozenset
                                   (X'' @ map (\<lambda>(u, v, l). l) (loops (graph_at s2 (o_G obj))))),
                            s2))
        = Inr (py_frozenset
                 (closure_loop edgelist (vertices (Graph es)) (connected_components_number (Graph es))
                    (Graph es) (remdups X)
                  @ map (\<lambda>(u, v, l). l) (loops (graph_at s (o_G obj)))))"
      using a g1 st_closure_loop_refines[of g edgelist "vertices (Graph es)"
          "connected_components_number (Graph es)" "remdups X" s1]
      by (simp add: Let_def split_def) }
  note inner = this
  have GM: "G (matroid_value s obj) = graph_at s (o_G obj)"
    by (simp add: matroid_value_def)
  show ?thesis
    using obj inner
    by (auto simp add: st_closure_def u_closure_def u_subgraph_from_set_def Let_def GM
        split: sum.splits)
qed

lemma st_graphic_extension_refines:
  assumes obj: "matroid_objects s self = Some obj"
  shows "result_value (snd (st_graphic_extension self u v element s))
           (fst (st_graphic_extension self u v element s))
         = graphic_extension (matroid_value s obj) u v element"
proof (cases "element \<noteq> None \<and> the element \<in> set (groundset (matroid_value s obj))")
  case True
  then show ?thesis using obj
    by (simp add: st_graphic_extension_def graphic_extension_def result_value_def)
next
  case False
  obtain g s1 where a: "alloc_graph (graph_at s (o_G obj)) s = (g, s1)"
    by (cases "alloc_graph (graph_at s (o_G obj)) s")
  note g = graph_at_alloc_graph[OF a]
  define e where "e = (u, (case v of None \<Rightarrow> u | Some w \<Rightarrow> w),
     (case element of None \<Rightarrow> newlabel (groundset (matroid_value s obj)) | Some x \<Rightarrow> x))"
  let ?s2 = "st_update g (\<lambda>h. add_edge h e) s1"
  obtain m s3 where i: "st_init g ?s2 = (m, s3)"
    by (cases "st_init g ?s2")
  have out: "st_graphic_extension self u v element s = (Inr m, s3)"
    using obj a False i unfolding e_def
    by (simp add: st_graphic_extension_def st_graph_def Let_def)
  have "graph_at ?s2 g = add_edge (graph_at s (o_G obj)) e"
    using g(2) by (simp add: graph_at_st_update)
  then have "result_value s3 (Inr m) = Inr (GraphicMatroid_of (add_edge (graph_at s (o_G obj)) e))"
    using st_init_value[OF i] by simp
  moreover have "graphic_extension (matroid_value s obj) u v element
      = Inr (GraphicMatroid_of (add_edge (graph_at s (o_G obj)) e))"
    using False unfolding e_def
    by (simp add: graphic_extension_def Let_def graph_def G_matroid_value)
  ultimately show ?thesis using out by simp
qed

lemma st_twist_refines:
  assumes obj: "matroid_objects s self = Some obj"
  shows "result_value (snd (st_twist self X s)) (fst (st_twist self X s))
         = twist (matroid_value s obj) X"
proof -
  obtain g0 s1 where a0: "alloc_graph (graph_at s (o_G obj)) s = (g0, s1)"
    by (cases "alloc_graph (graph_at s (o_G obj)) s")
  note g0 = graph_at_alloc_graph[OF a0]
  have lt: "o_G obj \<noteq> g0 \<Longrightarrow> graph_at s1 (o_G obj) = graph_at s (o_G obj)"
    using g0(2) by simp
  have same: "graph_at s1 (o_G obj) = graph_at s (o_G obj)"
    using a0 by (auto simp add: alloc_graph_def graph_at_def)
  obtain g s2 where a: "alloc_graph (graph_at s (o_G obj)) s1 = (g, s2)"
    by (cases "alloc_graph (graph_at s (o_G obj)) s1")
  note g = graph_at_alloc_graph[OF a]
  { fix es a' b'
    obtain m s4 where i: "st_init g (st_twist_loop g es a' b' s2) = (m, s4)"
      by (cases "st_init g (st_twist_loop g es a' b' s2)")
    have "graph_at (st_twist_loop g es a' b' s2) g = twist_loop es a' b' (graph_at s (o_G obj))"
      using g(2) by (simp add: st_twist_loop_refines)
    then have "result_value s4 (Inr m)
        = Inr (GraphicMatroid_of (twist_loop es a' b' (graph_at s (o_G obj))))"
      using st_init_value[OF i] by simp
    with i have "result_value (snd (case st_init g (st_twist_loop g es a' b' s2) of (m, s4) \<Rightarrow> (Inr m, s4)))
           (fst (case st_init g (st_twist_loop g es a' b' s2) of (m, s4) \<Rightarrow> (Inr m :: error + nat, s4)))
        = Inr (GraphicMatroid_of (twist_loop es a' b' (graph_at s (o_G obj))))"
      by simp }
  note inner = this
  show ?thesis
    using obj a0 a same
    by (simp add: st_twist_def twist_def st_graph_def Let_def graph_def G_matroid_value
        result_value_def[of _ "Inl _"] split: sum.split) (use inner in blast)
qed

subsection \<open>No operation mutates its receiver\<close>

lemma receiver_unchangedI:
  assumes "unchanged s s'" and "matroid_objects s self = Some obj"
    and "self < next_ref s" and "o_G obj < next_ref s"
  shows "receiver_unchanged s self s'"
  using unchanged_receiver[OF assms] assms(1,2) by (simp add: receiver_unchanged_def)

lemma returns_fresh_instanceI:
  assumes "\<And>m. fst out = Inr m \<Longrightarrow> fresh_instance s (snd out) m"
  shows "returns_fresh_instance s out"
  using assms by (simp add: returns_fresh_instance_def split: sum.splits)

text \<open>
  Claim C9. No operation mutates its receiver. In the store, the receiver is a matroid object
  at \<open>self\<close> whose graph object is at \<open>o_G obj\<close>, both made before the call. After \<open>_rank\<close>,
  \<open>_closure\<close>, \<open>_minor\<close>, \<open>graphic_extension\<close>, \<open>twist\<close> and \<open>one_sum\<close>, whatever they
  return, every object that was in the store is the same, so the receiver has the same
  graph, ground set, vertex map and element-to-edge map; and when \<open>_minor\<close>,
  \<open>graphic_extension\<close>, \<open>twist\<close> or \<open>one_sum\<close> returns a matroid, it is a new object with a
  new graph object.
\<close>

theorem operations_do_not_mutate_receiver:
  assumes obj: "matroid_objects s self = Some obj"
    and self: "self < next_ref s" and graph: "o_G obj < next_ref s"
  shows "receiver_unchanged s self (snd (st_rank self X1 s)) \<and>
         receiver_unchanged s self (snd (st_closure self X2 s)) \<and>
         receiver_unchanged s self (snd (st_minor contract_edges self contractions deletions s)) \<and>
         receiver_unchanged s self (snd (st_graphic_extension self u v element s)) \<and>
         receiver_unchanged s self (snd (st_twist self X3 s)) \<and>
         receiver_unchanged s self (snd (st_one_sum split_vertex merge_vertices self X4 u' v' s)) \<and>
         returns_fresh_instance s (st_minor contract_edges self contractions deletions s) \<and>
         returns_fresh_instance s (st_graphic_extension self u v element s) \<and>
         returns_fresh_instance s (st_twist self X3 s) \<and>
         returns_fresh_instance s (st_one_sum split_vertex merge_vertices self X4 u' v' s)"
proof -
  note I = receiver_unchangedI[OF _ obj self graph]
  have 1: "receiver_unchanged s self (snd (st_rank self X1 s))"
    by (rule I) (simp add: st_rank_frame unchanged_refl)
  have 2: "receiver_unchanged s self (snd (st_closure self X2 s))"
    by (rule I) (rule st_closure_frame)
  have 3: "receiver_unchanged s self (snd (st_minor contract_edges self contractions deletions s))"
    by (rule I) (rule st_minor_frame)
  have 4: "receiver_unchanged s self (snd (st_graphic_extension self u v element s))"
    by (rule I) (rule st_graphic_extension_frame)
  have 5: "receiver_unchanged s self (snd (st_twist self X3 s))"
    by (rule I) (rule st_twist_frame)
  have 6: "receiver_unchanged s self (snd (st_one_sum split_vertex merge_vertices self X4 u' v' s))"
    by (rule I) (rule st_one_sum_frame)
  have 7: "returns_fresh_instance s (st_minor contract_edges self contractions deletions s)"
    by (rule returns_fresh_instanceI) (rule st_minor_frame)
  have 8: "returns_fresh_instance s (st_graphic_extension self u v element s)"
    by (rule returns_fresh_instanceI) (rule st_graphic_extension_frame)
  have 9: "returns_fresh_instance s (st_twist self X3 s)"
    by (rule returns_fresh_instanceI) (rule st_twist_frame)
  have 10: "returns_fresh_instance s (st_one_sum split_vertex merge_vertices self X4 u' v' s)"
    by (rule returns_fresh_instanceI) (rule st_one_sum_frame)
  from 1 2 3 4 5 6 7 8 9 10 show ?thesis by simp
qed

lemma example_store_next: "next_ref example_store = 3"
  by (simp add: example_store_def st_init_def alloc_graph_def alloc_matroid_def Let_def
      empty_store_def)

lemma example_store_self:
  "\<exists>obj. matroid_objects example_store 2 = Some obj \<and> o_G obj = 1 \<and>
     matroid_value example_store obj =
       GraphicMatroid_of (Graph [(0, 1, 0), (1, 2, 1), (1, 2, 2), (2, 3, 3), (2, 3, 4), (2, 3, 5),
                                 (3, 0, 6)])"
  by (simp add: example_store_def st_init_def alloc_graph_def alloc_matroid_def Let_def
      empty_store_def matroid_value_def graph_at_def)

theorem operations_do_not_mutate_receiver_witness:
  "(\<exists>obj. matroid_objects example_store 2 = Some obj \<and> o_G obj < next_ref example_store) \<and>
   2 < next_ref example_store \<and>
   receiver_unchanged example_store 2 (snd (st_twist 2 [0, 1, 2] example_store)) \<and>
   (\<exists>m. fst (st_twist 2 [0, 1, 2] example_store) = Inr m \<and>
        fresh_instance example_store (snd (st_twist 2 [0, 1, 2] example_store)) m)"
proof -
  let ?g = "Graph [(0, 1, 0), (1, 2, 1), (1, 2, 2), (2, 3, 3), (2, 3, 4), (2, 3, 5), (3, 0, 6 :: label)]"
  obtain obj where obj: "matroid_objects example_store 2 = Some obj" and og: "o_G obj = 1"
    and val: "matroid_value example_store obj = GraphicMatroid_of ?g"
    using example_store_self by blast
  have self: "2 < next_ref example_store" by (simp add: example_store_next)
  have graph: "o_G obj < next_ref example_store" by (simp add: example_store_next og)
  have "(case twist (GraphicMatroid_of ?g) [0, 1, 2] of Inl e \<Rightarrow> False | Inr N \<Rightarrow> True)"
    by code_simp
  then obtain N where "twist (matroid_value example_store obj) [0, 1, 2] = Inr N"
    unfolding val by (auto split: sum.splits)
  then have "result_value (snd (st_twist 2 [0, 1, 2] example_store))
               (fst (st_twist 2 [0, 1, 2] example_store)) = Inr N"
    using st_twist_refines[OF obj, of "[0, 1, 2]"] by simp
  then obtain m where m: "fst (st_twist 2 [0, 1, 2] example_store) = Inr m"
    by (auto simp add: result_value_def split: sum.splits)
  from operations_do_not_mutate_receiver[OF obj self graph, where ?X3.0 = "[0, 1, 2]"]
  have "receiver_unchanged example_store 2 (snd (st_twist 2 [0, 1, 2] example_store))"
    and "returns_fresh_instance example_store (st_twist 2 [0, 1, 2] example_store)"
    by blast+
  then show ?thesis
    using obj self graph m by (auto simp add: returns_fresh_instance_def)
qed

end
